theory Spec2Isabelle
  imports Main "HOL-Library.Sublist" "HOL-Library.AList"
begin

section \<open>Response cache (utils/responseCache.ts)\<close>

text \<open>
  The cache is the module-level \<^verbatim>\<open>Map<string, CacheEntry>\<close>. It is modelled as an
  association list in insertion order; \<^verbatim>\<open>cache.set\<close> is \<open>AList.update\<close>,
  \<^verbatim>\<open>cache.get\<close> is \<open>map_of\<close>, \<^verbatim>\<open>cache.delete\<close> is \<open>AList.delete\<close>.
  \<^verbatim>\<open>Date.now()\<close> is the explicit argument \<open>now\<close> (milliseconds, an integer), and the
  module-level flag \<^verbatim>\<open>cleanupScheduled\<close> is a field of the store.
\<close>

record CachedChunk =
  content :: string
  index :: int
  total :: int

record CacheEntry =
  chunks :: "CachedChunk list"
  createdAt :: int
  expiresAt :: int

record store =
  cache :: "(string \<times> CacheEntry) list"
  cleanupScheduled :: bool

definition CACHE_TTL_MS :: int where
  "CACHE_TTL_MS = 3600000"

definition CLEANUP_INTERVAL_MS :: int where
  "CLEANUP_INTERVAL_MS = 5 * 60 * 1000"

definition empty_store :: store where
  "empty_store = \<lparr>cache = [], cleanupScheduled = False\<rparr>"

text \<open>
  \<^verbatim>\<open>generateCacheKey\<close>: the two base-36 renderings (of \<^verbatim>\<open>Date.now()\<close> and of
  \<^verbatim>\<open>Math.random()\<close>) are taken as arguments.
\<close>

definition generateCacheKey :: "string \<Rightarrow> string \<Rightarrow> string" where
  "generateCacheKey timestamp random = ''cache_'' @ timestamp @ random"

text \<open>\<^verbatim>\<open>scheduleCleanup\<close> arms the interval timer once; the timer's callback is \<open>cleanup_tick\<close> below.\<close>

definition scheduleCleanup :: "store \<Rightarrow> store" where
  "scheduleCleanup st = (if cleanupScheduled st then st else st\<lparr>cleanupScheduled := True\<rparr>)"

text \<open>\<^verbatim>\<open>cacheResponse(chunks, ttlMs = DEFAULTS.CACHE_TTL_MS)\<close>; \<open>None\<close> is the omitted argument.\<close>

definition cacheResponse :: "string \<Rightarrow> int \<Rightarrow> CachedChunk list \<Rightarrow> int option \<Rightarrow> store \<Rightarrow> string \<times> store" where
  "cacheResponse key now chs ttl st =
     (let ttlMs = (case ttl of None \<Rightarrow> CACHE_TTL_MS | Some t \<Rightarrow> t);
          entry = \<lparr>chunks = chs, createdAt = now, expiresAt = now + ttlMs\<rparr>
      in (key, scheduleCleanup (st\<lparr>cache := AList.update key entry (cache st)\<rparr>)))"

definition getResponse :: "int \<Rightarrow> store \<Rightarrow> string \<Rightarrow> CacheEntry option \<times> store" where
  "getResponse now st key =
     (case map_of (cache st) key of
        None \<Rightarrow> (None, st)
      | Some entry \<Rightarrow>
          if now > expiresAt entry
          then (None, st\<lparr>cache := AList.delete key (cache st)\<rparr>)
          else (Some entry, st))"

definition getChunk :: "int \<Rightarrow> store \<Rightarrow> string \<Rightarrow> int \<Rightarrow> CachedChunk option \<times> store" where
  "getChunk now st key chunkIndex =
     (case getResponse now st key of
        (None, st') \<Rightarrow> (None, st')
      | (Some entry, st') \<Rightarrow>
          if chunkIndex < 1 \<or> chunkIndex > int (length (chunks entry))
          then (None, st')
          else (Some (chunks entry ! nat (chunkIndex - 1)), st'))"

definition deleteCache :: "store \<Rightarrow> string \<Rightarrow> bool \<times> store" where
  "deleteCache st key =
     (map_of (cache st) key \<noteq> None, st\<lparr>cache := AList.delete key (cache st)\<rparr>)"

definition clearExpired :: "int \<Rightarrow> store \<Rightarrow> nat \<times> store" where
  "clearExpired now st =
     (length (filter (\<lambda>(key, entry). now > expiresAt entry) (cache st)),
      st\<lparr>cache := filter (\<lambda>(key, entry). \<not> now > expiresAt entry) (cache st)\<rparr>)"

text \<open>The body of the \<^verbatim>\<open>setInterval\<close> callback installed by \<^verbatim>\<open>scheduleCleanup\<close>.\<close>

definition cleanup_tick :: "int \<Rightarrow> store \<Rightarrow> store" where
  "cleanup_tick now st =
     (let st' = snd (clearExpired now st)
      in if length (cache st') = 0 then st'\<lparr>cleanupScheduled := False\<rparr> else st')"

text \<open>A JavaScript \<^verbatim>\<open>Map\<close> holds each key once.\<close>

definition store_ok :: "store \<Rightarrow> bool" where
  "store_ok st = distinct (map fst (cache st))"

section \<open>JavaScript string operations used by the sources\<close>

text \<open>
  Strings are lists of code units; \<open>length\<close> is JavaScript's \<^verbatim>\<open>.length\<close>. The operations
  below are the library methods the sources call, with their clamping written out.
\<close>

definition newline :: char where
  "newline = CHR 0x0A"

text \<open>\<^verbatim>\<open>s.slice(start, end)\<close>: negative positions count from the end, both are clamped.\<close>

definition slice :: "'a list \<Rightarrow> int \<Rightarrow> int \<Rightarrow> 'a list" where
  "slice s start end =
     (let len = int (length s);
          from = (if start < 0 then max (len + start) 0 else min start len);
          to = (if end < 0 then max (len + end) 0 else min end len)
      in take (nat (to - from)) (drop (nat from) s))"

text \<open>The greatest position \<open>\<le> k\<close> holding \<open>ch\<close>, or \<open>-1\<close>.\<close>

fun lastIndexOf_upto :: "'a list \<Rightarrow> 'a \<Rightarrow> nat \<Rightarrow> int" where
  "lastIndexOf_upto s ch 0 = (if s \<noteq> [] \<and> s ! 0 = ch then 0 else - 1)"
| "lastIndexOf_upto s ch (Suc k) =
     (if Suc k < length s \<and> s ! Suc k = ch then int (Suc k) else lastIndexOf_upto s ch k)"

text \<open>\<^verbatim>\<open>s.lastIndexOf(ch, fromIndex)\<close> for a one-character search string.\<close>

definition lastIndexOf :: "'a list \<Rightarrow> 'a \<Rightarrow> int \<Rightarrow> int" where
  "lastIndexOf s ch fromIndex =
     (if s = [] then - 1
      else lastIndexOf_upto s ch (nat (min (max fromIndex 0) (int (length s) - 1))))"

section \<open>Response chunker (utils/responseChunker.ts)\<close>

definition RESPONSE_CHUNK_SIZE_KB :: int where
  "RESPONSE_CHUNK_SIZE_KB = 10"

text \<open>
  The value of \<^verbatim>\<open>endPosition\<close> at the \<^verbatim>\<open>slice\<close> call of one loop iteration that starts at
  \<open>currentPosition\<close>.
\<close>

definition chunk_end :: "string \<Rightarrow> int \<Rightarrow> int \<Rightarrow> int" where
  "chunk_end response chunkSizeBytes currentPosition =
     (let endPosition = currentPosition + chunkSizeBytes
      in if endPosition < int (length response)
         then (let searchStart = max currentPosition (endPosition - 500);
                   lastNewline = lastIndexOf response newline endPosition
               in if lastNewline > searchStart then lastNewline + 1 else endPosition)
         else int (length response))"

text \<open>
  The \<^verbatim>\<open>while (currentPosition < response.length)\<close> loop. It does not terminate for a
  chunk size of zero or less, so it is a partial function: \<open>None\<close> is the run that never
  returns.
\<close>

partial_function (option) chunk_loop ::
  "string \<Rightarrow> int \<Rightarrow> int \<Rightarrow> int \<Rightarrow> CachedChunk list \<Rightarrow> CachedChunk list option" where
  "chunk_loop response chunkSizeBytes currentPosition chunkIndex chs =
     (if currentPosition < int (length response)
      then (let endPosition = chunk_end response chunkSizeBytes currentPosition;
                chunkContent = slice response currentPosition endPosition
            in chunk_loop response chunkSizeBytes endPosition (chunkIndex + 1)
                 (chs @ [\<lparr>content = chunkContent, index = chunkIndex, total = 0\<rparr>]))
      else Some chs)"

declare chunk_loop.simps [code]

text \<open>
  The chunks pushed by the loop when it is entered at \<open>currentPosition\<close> with
  \<open>chunkIndex\<close>: one per iteration, each the slice up to \<open>chunk_end\<close>, until the
  position reaches the end of the response.
\<close>

fun chunks_from :: "string \<Rightarrow> int \<Rightarrow> int \<Rightarrow> int \<Rightarrow> CachedChunk list \<Rightarrow> bool" where
  "chunks_from s c cur idx [] = (\<not> cur < int (length s))"
| "chunks_from s c cur idx (ch # rest) =
     (cur < int (length s) \<and>
      ch = \<lparr>content = slice s cur (chunk_end s c cur), index = idx, total = 0\<rparr> \<and>
      chunks_from s c (chunk_end s c cur) (idx + 1) rest)"

text \<open>\<^verbatim>\<open>chunkResponse(response, chunkSizeKB = DEFAULTS.RESPONSE_CHUNK_SIZE_KB)\<close>.\<close>

definition chunkResponse :: "string \<Rightarrow> int option \<Rightarrow> CachedChunk list option" where
  "chunkResponse response chunkSizeKB =
     (let chunkSizeBytes = (case chunkSizeKB of None \<Rightarrow> RESPONSE_CHUNK_SIZE_KB | Some k \<Rightarrow> k) * 1024
      in if int (length response) \<le> chunkSizeBytes
         then Some [\<lparr>content = response, index = 1, total = 1\<rparr>]
         else (case chunk_loop response chunkSizeBytes 0 1 [] of
                 None \<Rightarrow> None
               | Some chs \<Rightarrow> Some (map (\<lambda>chunk. chunk\<lparr>total := int (length chs)\<rparr>) chs)))"

definition needsChunking :: "string \<Rightarrow> int option \<Rightarrow> bool" where
  "needsChunking response chunkSizeKB =
     (let chunkSizeBytes = (case chunkSizeKB of None \<Rightarrow> RESPONSE_CHUNK_SIZE_KB | Some k \<Rightarrow> k) * 1024
      in int (length response) > chunkSizeBytes)"

section \<open>Command executor (utils/commandExecutor.ts)\<close>

text \<open>
  \<^verbatim>\<open>String.prototype.trim\<close> on code units below 256: tab, line feed, vertical tab, form
  feed, carriage return, space and no-break space are white space.
\<close>

definition isWhiteSpace :: "char \<Rightarrow> bool" where
  "isWhiteSpace ch = (ch \<in> {CHR 0x09, CHR 0x0A, CHR 0x0B, CHR 0x0C, CHR 0x0D, CHR 0x20, CHR 0xA0})"

definition trim :: "string \<Rightarrow> string" where
  "trim s = rev (dropWhile isWhiteSpace (rev (dropWhile isWhiteSpace s)))"

text \<open>\<^verbatim>\<open>s.includes(pattern)\<close>, \<^verbatim>\<open>s.startsWith(p)\<close>, \<^verbatim>\<open>s.endsWith(p)\<close>, \<^verbatim>\<open>parts.join(sep)\<close>.\<close>

definition includes_str :: "string \<Rightarrow> string \<Rightarrow> bool" where
  "includes_str s pattern = sublist pattern s"

definition startsWith :: "string \<Rightarrow> string \<Rightarrow> bool" where
  "startsWith s p = prefix p s"

definition endsWith :: "string \<Rightarrow> string \<Rightarrow> bool" where
  "endsWith s p = suffix p s"

fun join :: "string list \<Rightarrow> string \<Rightarrow> string" where
  "join [] sep = []"
| "join [x] sep = x"
| "join (x # y # ys) sep = x @ sep @ join (y # ys) sep"

text \<open>Decimal rendering of a number inside a template string; \<^verbatim>\<open>null\<close> for a missing exit code.\<close>

fun show_nat :: "nat \<Rightarrow> string" where
  "show_nat n = (if n < 10 then [''0123456789'' ! n]
                 else show_nat (n div 10) @ [''0123456789'' ! (n mod 10)])"

declare show_nat.simps [simp del]

definition show_int :: "int \<Rightarrow> string" where
  "show_int i = (if i < 0 then ''-'' @ show_nat (nat (- i)) else show_nat (nat i))"

definition show_code :: "int option \<Rightarrow> string" where
  "show_code code = (case code of None \<Rightarrow> ''null'' | Some i \<Rightarrow> show_int i)"

text \<open>
  What the spawned child does is the environment's part: the sequence of events that
  Node delivers to the handlers registered by \<^verbatim>\<open>executeCommand\<close>.
\<close>

datatype child_event =
    StdoutData string
  | StderrData string
  | ErrorEvent string
  | CloseEvent "int option"

text \<open>
  The closure variables of \<^verbatim>\<open>executeCommand\<close>; \<open>reported\<close> lists the arguments of the calls
  of \<^verbatim>\<open>onProgress\<close>, and \<open>settled\<close> is the promise: \<open>None\<close> while pending,
  \<open>Some (Inr out)\<close> resolved, \<open>Some (Inl message)\<close> rejected with \<^verbatim>\<open>new Error(message)\<close>.
\<close>

record exec_state =
  stdout :: string
  stderr :: string
  isResolved :: bool
  lastReportedLength :: nat
  reported :: "string list"
  settled :: "(string + string) option"

definition exec_init :: exec_state where
  "exec_init = \<lparr>stdout = [], stderr = [], isResolved = False, lastReportedLength = 0,
                 reported = [], settled = None\<rparr>"

text \<open>A promise keeps its first settlement.\<close>

definition settle :: "string + string \<Rightarrow> exec_state \<Rightarrow> exec_state" where
  "settle r st = (case settled st of None \<Rightarrow> st\<lparr>settled := Some r\<rparr> | Some _ \<Rightarrow> st)"

definition on_stdout_data :: "bool \<Rightarrow> string \<Rightarrow> exec_state \<Rightarrow> exec_state" where
  "on_stdout_data onProgress chunk st =
     (let st1 = st\<lparr>stdout := stdout st @ chunk\<rparr>
      in if onProgress \<and> length (stdout st1) > lastReportedLength st1
         then (let newContent = drop (lastReportedLength st1) (stdout st1)
               in st1\<lparr>lastReportedLength := length (stdout st1),
                      reported := reported st1 @ [newContent]\<rparr>)
         else st1)"

definition on_stderr_data :: "string \<Rightarrow> exec_state \<Rightarrow> exec_state" where
  "on_stderr_data chunk st = st\<lparr>stderr := stderr st @ chunk\<rparr>"

definition on_error :: "string \<Rightarrow> string \<Rightarrow> exec_state \<Rightarrow> exec_state" where
  "on_error command message st =
     (if \<not> isResolved st
      then settle (Inl (''Failed to spawn command '' @ [CHR 0x27] @ command @ [CHR 0x27] @ '': '' @ message))
             (st\<lparr>isResolved := True\<rparr>)
      else st)"

definition on_close :: "int option \<Rightarrow> exec_state \<Rightarrow> exec_state" where
  "on_close code st =
     (if \<not> isResolved st
      then (let st1 = st\<lparr>isResolved := True\<rparr>
            in if code = Some 0
               then settle (Inr (trim (stdout st1))) st1
               else (let sanitizedStderr = (if trim (stderr st1) = [] then ''Unknown error'' else trim (stderr st1))
                     in settle (Inl (''Command failed with exit code '' @ show_code code @ '': '' @ sanitizedStderr)) st1))
      else st)"

fun handle_event :: "string \<Rightarrow> bool \<Rightarrow> exec_state \<Rightarrow> child_event \<Rightarrow> exec_state" where
  "handle_event command onProgress st (StdoutData chunk) = on_stdout_data onProgress chunk st"
| "handle_event command onProgress st (StderrData chunk) = on_stderr_data chunk st"
| "handle_event command onProgress st (ErrorEvent message) = on_error command message st"
| "handle_event command onProgress st (CloseEvent code) = on_close code st"

text \<open>
  \<^verbatim>\<open>executeCommand(command, args, onProgress?)\<close> run against the events of its child;
  \<open>onProgress\<close> says whether the callback was supplied. The function takes no timeout.
\<close>

definition executeCommand :: "string \<Rightarrow> string list \<Rightarrow> bool \<Rightarrow> child_event list \<Rightarrow> exec_state" where
  "executeCommand command args onProgress events = foldl (handle_event command onProgress) exec_init events"

text \<open>
  Events that only deliver output, and the output a sequence of events has delivered on
  each of the two pipes.
\<close>

fun is_output :: "child_event \<Rightarrow> bool" where
  "is_output (StdoutData chunk) = True"
| "is_output (StderrData chunk) = True"
| "is_output (ErrorEvent message) = False"
| "is_output (CloseEvent code) = False"

fun stdout_of :: "child_event list \<Rightarrow> string" where
  "stdout_of [] = []"
| "stdout_of (StdoutData chunk # es) = chunk @ stdout_of es"
| "stdout_of (e # es) = stdout_of es"

fun stderr_of :: "child_event list \<Rightarrow> string" where
  "stderr_of [] = []"
| "stderr_of (StderrData chunk # es) = chunk @ stderr_of es"
| "stderr_of (e # es) = stderr_of es"

section \<open>The setup wizard's command runner (setup/wizard.ts, runCommand)\<close>

text \<open>
  \<^verbatim>\<open>runCommand(command, args, timeoutMs = 60000)\<close> installs a timer next to the child's
  handlers; the firing of that timer is one more event.
\<close>

datatype wizard_event = Child child_event | TimerFired

record run_state =
  rc_stdout :: string
  rc_stderr :: string
  timedOut :: bool
  timerCleared :: bool
  killed :: bool
  rc_settled :: "(string + string) option"

definition run_init :: run_state where
  "run_init = \<lparr>rc_stdout = [], rc_stderr = [], timedOut = False, timerCleared = False,
                killed = False, rc_settled = None\<rparr>"

definition rc_settle :: "string + string \<Rightarrow> run_state \<Rightarrow> run_state" where
  "rc_settle r st = (case rc_settled st of None \<Rightarrow> st\<lparr>rc_settled := Some r\<rparr> | Some _ \<Rightarrow> st)"

fun rc_handle :: "string \<Rightarrow> int \<Rightarrow> run_state \<Rightarrow> wizard_event \<Rightarrow> run_state" where
  "rc_handle command timeoutMs st TimerFired =
     (if timerCleared st \<or> timedOut st then st
      else rc_settle (Inl (''Command timed out after '' @ show_int timeoutMs @ ''ms''))
             (st\<lparr>timedOut := True, killed := True\<rparr>))"
| "rc_handle command timeoutMs st (Child (StdoutData chunk)) = st\<lparr>rc_stdout := rc_stdout st @ chunk\<rparr>"
| "rc_handle command timeoutMs st (Child (StderrData chunk)) = st\<lparr>rc_stderr := rc_stderr st @ chunk\<rparr>"
| "rc_handle command timeoutMs st (Child (ErrorEvent message)) =
     rc_settle (Inl (''Failed to spawn '' @ [CHR 0x27] @ command @ [CHR 0x27] @ '': '' @ message))
       (st\<lparr>timerCleared := True\<rparr>)"
| "rc_handle command timeoutMs st (Child (CloseEvent code)) =
     (let st1 = st\<lparr>timerCleared := True\<rparr>
      in if timedOut st1 then st1
         else if code = Some 0 then rc_settle (Inr (trim (rc_stdout st1))) st1
         else rc_settle (Inl (if trim (rc_stderr st1) = []
                              then ''Command failed with exit code '' @ show_code code
                              else trim (rc_stderr st1))) st1)"

definition runCommand :: "string \<Rightarrow> string list \<Rightarrow> int option \<Rightarrow> wizard_event list \<Rightarrow> run_state" where
  "runCommand command args timeoutMs events =
     foldl (rc_handle command (case timeoutMs of None \<Rightarrow> 60000 | Some t \<Rightarrow> t)) run_init events"

section \<open>Constants (constants.ts)\<close>

text \<open>
  The two status messages start with an emoji, which lies outside the code units below
  256 that the string operations of this development cover; it is stood for by its UTF-8
  bytes. No statement depends on it.
\<close>

definition FALLBACK_RETRY :: string where
  "FALLBACK_RETRY = [CHR 0xE2, CHR 0x9A, CHR 0xA1] @ '' Retrying with fallback model...''"

definition AUTO_SELECT_RETRY :: string where
  "AUTO_SELECT_RETRY = [CHR 0xF0, CHR 0x9F, CHR 0x94, CHR 0x84] @ '' Retrying with auto-selected model...''"

definition FLASH_DEFAULT :: string where "FLASH_DEFAULT = ''gemini-3-flash-preview''"
definition PRO_DEFAULT :: string where "PRO_DEFAULT = ''gemini-3-pro-preview''"
definition FLASH_FALLBACK :: string where "FLASH_FALLBACK = ''gemini-2.5-flash''"
definition PRO_FALLBACK :: string where "PRO_FALLBACK = ''gemini-2.5-pro''"
definition AUTO_SELECT :: "string option" where "AUTO_SELECT = None"

datatype ToolName = quick_query | deep_research | analyze_directory

record ModelTierConfig =
  tier1 :: string
  tier2 :: string
  tier3 :: "string option"

fun MODEL_TIERS :: "ToolName \<Rightarrow> ModelTierConfig" where
  "MODEL_TIERS quick_query = \<lparr>tier1 = FLASH_DEFAULT, tier2 = FLASH_FALLBACK, tier3 = AUTO_SELECT\<rparr>"
| "MODEL_TIERS deep_research = \<lparr>tier1 = PRO_DEFAULT, tier2 = PRO_FALLBACK, tier3 = AUTO_SELECT\<rparr>"
| "MODEL_TIERS analyze_directory = \<lparr>tier1 = FLASH_DEFAULT, tier2 = FLASH_FALLBACK, tier3 = AUTO_SELECT\<rparr>"

definition GEMINI :: string where "GEMINI = ''gemini''"
definition FLAG_MODEL :: string where "FLAG_MODEL = ''-m''"
definition FLAG_PROMPT :: string where "FLAG_PROMPT = ''-p''"
definition FLAG_YES :: string where "FLAG_YES = ''-y''"
definition FLAG_OUTPUT_FORMAT :: string where "FLAG_OUTPUT_FORMAT = ''--output-format''"
definition FORMAT_JSON :: string where "FORMAT_JSON = ''json''"

datatype ErrorCode =
    INVALID_ARGUMENT
  | PATH_NOT_ALLOWED
  | GEMINI_CLI_NOT_FOUND
  | GEMINI_CLI_ERROR
  | AUTH_MISSING
  | QUOTA_EXCEEDED
  | CACHE_EXPIRED
  | INVALID_CHUNK_INDEX
  | INTERNAL

definition SYSTEM_PROMPT_lines :: "string list" where
  "SYSTEM_PROMPT_lines =
     [[],
      ''You are analyzing a codebase on behalf of an AI coding agent.'',
      [],
      ''WHEN TO USE THIS TOOL:'',
      ''- The calling agent should use MCP tools (quick_query, deep_research, analyze_directory) FIRST when questions involve repository files or code analysis'',
      ''- This reduces the calling agent'' @ [CHR 0x27] @ ''s context and model usage by offloading heavy reading/analysis to Gemini CLI'' @ [CHR 0x27] @ ''s large context window'',
      ''- Prefer using tools over asking the agent to read files directly'',
      [],
      ''CRITICAL CONSTRAINTS:'',
      ''- Read-only analysis ONLY (no write/edit tools available without --yolo flag)'',
      ''- Do NOT suggest code changes, patches, or file modifications'',
      ''- Do NOT attempt to use run_shell_command or write_file (not available)'',
      [],
      ''OPTIMIZATION FOR TOKEN EFFICIENCY:'',
      ''- The calling agent has limited context - be concise but thorough'',
      ''- Prioritize KEY findings over exhaustive details'',
      ''- Include file paths for all referenced code'',
      ''- Use bullet points and structured formatting for clarity'',
      ''- If asked about security/architecture/performance, focus ONLY on that dimension'',
      [],
      ''OUTPUT FORMAT:'',
      ''- Start with a 2-3 sentence executive summary'',
      ''- Provide detailed findings with file path references'',
      ''- End with a '' @ [CHR 0x22] @ ''## Files Referenced'' @ [CHR 0x22] @ '' section listing all paths examined'',
      []]"

definition SYSTEM_PROMPT :: string where
  "SYSTEM_PROMPT = join SYSTEM_PROMPT_lines [newline]"

section \<open>Gemini CLI executor (utils/geminiExecutor.ts)\<close>

record GeminiStats =
  tokensUsed :: int
  toolCalls :: int
  latencyMs :: int

record GeminiResponse =
  answer :: string
  filesAccessed :: "string list"
  stats :: GeminiStats
  model :: string

text \<open>
  The result of \<^verbatim>\<open>parseGeminiOutput\<close>. Its three optional fields are \<open>None\<close> when
  undefined. The function itself rests on \<^verbatim>\<open>JSON.parse\<close> and never throws (its body is
  one try/catch), so it enters the model as a parameter \<open>parse\<close>.
\<close>

record ParsedOutput =
  parsed_text :: string
  parsed_tokensUsed :: "int option"
  parsed_toolCalls :: "int option"
  parsed_filesAccessed :: "string list option"

definition getModelTiers :: "ToolName \<Rightarrow> string option list" where
  "getModelTiers toolName =
     (let config = MODEL_TIERS toolName in [Some (tier1 config), Some (tier2 config), tier3 config])"

text \<open>
  \<^verbatim>\<open>toLowerCase\<close> on code units below 256: the letters A to Z and the Latin-1 capitals
  (0xC0 to 0xDE, the multiplication sign 0xD7 apart) move up by 32.
\<close>

definition upper_case_letters :: string where
  "upper_case_letters =
     ''ABCDEFGHIJKLMNOPQRSTUVWXYZ'' @
     [CHR 0xC0, CHR 0xC1, CHR 0xC2, CHR 0xC3, CHR 0xC4, CHR 0xC5, CHR 0xC6, CHR 0xC7, CHR 0xC8, CHR 0xC9, CHR 0xCA, CHR 0xCB, CHR 0xCC, CHR 0xCD, CHR 0xCE, CHR 0xCF, CHR 0xD0, CHR 0xD1, CHR 0xD2, CHR 0xD3, CHR 0xD4, CHR 0xD5, CHR 0xD6, CHR 0xD8, CHR 0xD9, CHR 0xDA, CHR 0xDB, CHR 0xDC, CHR 0xDD, CHR 0xDE]"

definition lower_case_letters :: string where
  "lower_case_letters =
     ''abcdefghijklmnopqrstuvwxyz'' @
     [CHR 0xE0, CHR 0xE1, CHR 0xE2, CHR 0xE3, CHR 0xE4, CHR 0xE5, CHR 0xE6, CHR 0xE7, CHR 0xE8, CHR 0xE9, CHR 0xEA, CHR 0xEB, CHR 0xEC, CHR 0xED, CHR 0xEE, CHR 0xEF, CHR 0xF0, CHR 0xF1, CHR 0xF2, CHR 0xF3, CHR 0xF4, CHR 0xF5, CHR 0xF6, CHR 0xF8, CHR 0xF9, CHR 0xFA, CHR 0xFB, CHR 0xFC, CHR 0xFD, CHR 0xFE]"

definition toLowerCase :: "string \<Rightarrow> string" where
  "toLowerCase s =
     map (\<lambda>ch. case map_of (zip upper_case_letters lower_case_letters) ch of
                 None \<Rightarrow> ch
               | Some l \<Rightarrow> l) s"

text \<open>\<^verbatim>\<open>isQuotaError\<close> applied to an \<^verbatim>\<open>Error\<close> with the given message.\<close>

definition isQuotaError :: "string \<Rightarrow> bool" where
  "isQuotaError error_message =
     (let message = toLowerCase error_message
      in includes_str message ''quota'' \<or>
         includes_str message ''resource_exhausted'' \<or>
         includes_str message ''rate limit'' \<or>
         includes_str message ''capacity'' \<or>
         includes_str message ''too many requests'' \<or>
         includes_str message ''429'')"

definition buildGeminiArgs :: "string \<Rightarrow> string option \<Rightarrow> string list" where
  "buildGeminiArgs prompt model' =
     (case model' of None \<Rightarrow> [] | Some m \<Rightarrow> [FLAG_MODEL, m])
     @ [FLAG_YES]
     @ [FLAG_OUTPUT_FORMAT, FORMAT_JSON]
     @ [FLAG_PROMPT, prompt]"

definition finalPrompt :: "string \<Rightarrow> string" where
  "finalPrompt prompt =
     SYSTEM_PROMPT @ [newline, newline] @ ''---'' @ [newline, newline] @ ''USER REQUEST:'' @ [newline] @ prompt"

text \<open>
  What the caller and the operating system see of one call: the strings passed to
  \<^verbatim>\<open>onProgress\<close> and the processes spawned, in order. Log lines are left out.
\<close>

datatype call_event = Progress string | Spawn string "string list"

text \<open>
  The environment of one call: \<open>w i command args\<close> is the event sequence of the child
  spawned by the \<open>i\<close>-th invocation (counted from 0) of \<^verbatim>\<open>executeCommand\<close>.
\<close>

type_synonym world = "nat \<Rightarrow> string \<Rightarrow> string list \<Rightarrow> child_event list"

text \<open>
  The \<^verbatim>\<open>for\<close> loop over the tiers, entered at index \<open>i\<close>. The result is \<open>None\<close> when the
  awaited promise never settles, \<open>Some (Inl message)\<close> when the function throws, and
  \<open>Some (Inr response)\<close> when it returns. \<open>elapsed\<close> stands for
  \<^verbatim>\<open>Date.now() - startTime\<close>.
\<close>

function tier_loop ::
  "world \<Rightarrow> (string \<Rightarrow> ParsedOutput) \<Rightarrow> int \<Rightarrow> bool \<Rightarrow> string \<Rightarrow> string option list \<Rightarrow>
   nat \<Rightarrow> string option \<Rightarrow> call_event list \<Rightarrow> (string + GeminiResponse) option \<times> call_event list" where
  "tier_loop w parse elapsed onProgress prompt modelTiers i lastError evs =
     (if i < length modelTiers
      then (let model = modelTiers ! i;
                evs1 = (if i > 0 \<and> onProgress
                        then evs @ [Progress ((if i = 1 then FALLBACK_RETRY else AUTO_SELECT_RETRY) @ [newline])]
                        else evs);
                args = buildGeminiArgs prompt model;
                run = executeCommand GEMINI args onProgress (w i GEMINI args);
                evs2 = evs1 @ [Spawn GEMINI args] @ map Progress (reported run)
            in case settled run of
                 None \<Rightarrow> (None, evs2)
               | Some (Inr output) \<Rightarrow>
                   (let parsed = parse output
                    in (Some (Inr \<lparr>answer = parsed_text parsed,
                                    filesAccessed = (case parsed_filesAccessed parsed of None \<Rightarrow> [] | Some fs \<Rightarrow> fs),
                                    stats = \<lparr>tokensUsed = (case parsed_tokensUsed parsed of None \<Rightarrow> 0 | Some n \<Rightarrow> n),
                                             toolCalls = (case parsed_toolCalls parsed of None \<Rightarrow> 0 | Some n \<Rightarrow> n),
                                             latencyMs = elapsed\<rparr>,
                                    model = (case model of None \<Rightarrow> ''auto'' | Some m \<Rightarrow> m)\<rparr>),
                        evs2))
               | Some (Inl message) \<Rightarrow>
                   if isQuotaError message \<and> int i < int (length modelTiers) - 1
                   then tier_loop w parse elapsed onProgress prompt modelTiers (i + 1) (Some message) evs2
                   else (Some (Inl message), evs2))
      else (Some (Inl (case lastError of None \<Rightarrow> ''Gemini CLI execution failed'' | Some message \<Rightarrow> message)), evs))"
  by pat_completeness auto
termination
  by (relation "measure (\<lambda>(w, parse, elapsed, onProgress, prompt, modelTiers, i, lastError, evs). length modelTiers - i)")
     auto

declare tier_loop.simps [simp del]

text \<open>
  One iteration of the loop, written out for the statements below: the argument vector
  of attempt \<open>i\<close>, the run of its child, what the attempt adds to the call's events
  (the fallback note when a callback was supplied and \<open>i > 0\<close>, the spawn, the forwarded
  output), and the response built from a successful run.
\<close>

definition attempt_args :: "string \<Rightarrow> string option list \<Rightarrow> nat \<Rightarrow> string list" where
  "attempt_args prompt modelTiers i = buildGeminiArgs prompt (modelTiers ! i)"

definition attempt_run :: "world \<Rightarrow> bool \<Rightarrow> string \<Rightarrow> string option list \<Rightarrow> nat \<Rightarrow> exec_state" where
  "attempt_run w onProgress prompt modelTiers i =
     executeCommand GEMINI (attempt_args prompt modelTiers i) onProgress
       (w i GEMINI (attempt_args prompt modelTiers i))"

definition attempt_trace :: "world \<Rightarrow> bool \<Rightarrow> string \<Rightarrow> string option list \<Rightarrow> nat \<Rightarrow> call_event list" where
  "attempt_trace w onProgress prompt modelTiers i =
     (if i > 0 \<and> onProgress
      then [Progress ((if i = 1 then FALLBACK_RETRY else AUTO_SELECT_RETRY) @ [newline])]
      else [])
     @ [Spawn GEMINI (attempt_args prompt modelTiers i)]
     @ map Progress (reported (attempt_run w onProgress prompt modelTiers i))"

definition make_response :: "(string \<Rightarrow> ParsedOutput) \<Rightarrow> int \<Rightarrow> string option \<Rightarrow> string \<Rightarrow> GeminiResponse" where
  "make_response parse elapsed model' output =
     (let parsed = parse output
      in \<lparr>answer = parsed_text parsed,
          filesAccessed = (case parsed_filesAccessed parsed of None \<Rightarrow> [] | Some fs \<Rightarrow> fs),
          stats = \<lparr>tokensUsed = (case parsed_tokensUsed parsed of None \<Rightarrow> 0 | Some n \<Rightarrow> n),
                   toolCalls = (case parsed_toolCalls parsed of None \<Rightarrow> 0 | Some n \<Rightarrow> n),
                   latencyMs = elapsed\<rparr>,
          model = (case model' of None \<Rightarrow> ''auto'' | Some m \<Rightarrow> m)\<rparr>)"

definition executeGeminiCLI ::
  "world \<Rightarrow> (string \<Rightarrow> ParsedOutput) \<Rightarrow> int \<Rightarrow> string \<Rightarrow> ToolName \<Rightarrow> bool \<Rightarrow>
   (string + GeminiResponse) option \<times> call_event list" where
  "executeGeminiCLI w parse elapsed prompt toolName onProgress =
     tier_loop w parse elapsed onProgress (finalPrompt prompt) (getModelTiers toolName) 0 None []"

section \<open>The deep research tool (tools/deep-research.tool.ts)\<close>

record ToolError =
  code :: ErrorCode
  message :: string
  nextStep :: string

text \<open>The \<^verbatim>\<open>catch\<close> block of \<^verbatim>\<open>deepResearchTool.execute\<close>, applied to the error's message.\<close>

definition deepResearch_catch :: "string \<Rightarrow> ToolError" where
  "deepResearch_catch errorMessage =
     (if includes_str errorMessage ''not found'' \<or> includes_str errorMessage ''ENOENT''
      then \<lparr>code = GEMINI_CLI_NOT_FOUND, message = errorMessage,
            nextStep = ''Install Gemini CLI: npm install -g @google/gemini-cli, or run setup wizard: npx better-gemini-mcp init''\<rparr>
      else if includes_str errorMessage ''auth'' \<or> includes_str errorMessage ''login''
      then \<lparr>code = AUTH_MISSING, message = errorMessage,
            nextStep = ''Authenticate Gemini CLI: run '' @ [CHR 0x27] @ ''gemini'' @ [CHR 0x27] @ '' and select '' @ [CHR 0x27] @ ''Login with Google'' @ [CHR 0x27] @ '', or set GEMINI_API_KEY environment variable''\<rparr>
      else if includes_str errorMessage ''quota''
      then \<lparr>code = QUOTA_EXCEEDED, message = errorMessage,
            nextStep = ''Quota exhausted after fallback. Wait for quota reset or upgrade plan. Consider using quick_query for lighter tasks.''\<rparr>
      else \<lparr>code = GEMINI_CLI_ERROR, message = errorMessage, nextStep = ''Check server logs for details''\<rparr>)"

text \<open>
  The \<^verbatim>\<open>try\<close>/\<^verbatim>\<open>catch\<close> of \<^verbatim>\<open>deepResearchTool.execute\<close> around the orchestrated call, for a
  prompt that passed the argument checks: every error thrown by \<^verbatim>\<open>executeGeminiCLI\<close>
  is caught and turned into the tool's error object. The chunking of a successful answer
  is not part of this function.
\<close>

definition deepResearch_try ::
  "world \<Rightarrow> (string \<Rightarrow> ParsedOutput) \<Rightarrow> int \<Rightarrow> string \<Rightarrow> bool \<Rightarrow>
   (ToolError + GeminiResponse) option \<times> call_event list" where
  "deepResearch_try w parse elapsed fullPrompt onProgress =
     (case executeGeminiCLI w parse elapsed fullPrompt deep_research onProgress of
        (None, evs) \<Rightarrow> (None, evs)
      | (Some (Inr result), evs) \<Rightarrow> (Some (Inr result), evs)
      | (Some (Inl errorMessage), evs) \<Rightarrow> (Some (Inl (deepResearch_catch errorMessage)), evs))"

text \<open>
  The flags that the project's design document (docs/project-overview-PRD.md, section 7.4,
  "Read-Only Enforcement") names as the ones that take Gemini CLI out of its read-only
  mode: without them \<^verbatim>\<open>write_file\<close>, \<^verbatim>\<open>replace\<close> and \<^verbatim>\<open>run_shell_command\<close> are not available.
\<close>

definition write_enabling_flags :: "string list" where
  "write_enabling_flags = [''--yolo'', ''-y'']"

section \<open>Node's \<^verbatim>\<open>path\<close> module, POSIX flavour\<close>

text \<open>
  \<^verbatim>\<open>validatePath\<close> rests on \<^verbatim>\<open>path.resolve\<close>, \<^verbatim>\<open>path.normalize\<close>, \<^verbatim>\<open>path.isAbsolute\<close> and
  \<^verbatim>\<open>path.sep\<close> of the Node library. They are modelled here for POSIX paths: a path is
  cut at every \<^verbatim>\<open>/\<close>; empty segments and \<^verbatim>\<open>.\<close> are dropped; \<^verbatim>\<open>..\<close> removes the segment
  before it, and where there is none it is dropped for an absolute path and kept for a
  relative one.
\<close>

definition sep :: char where
  "sep = CHR ''/''"

text \<open>\<^verbatim>\<open>s.split("/")\<close>.\<close>

fun split_sep :: "string \<Rightarrow> string list" where
  "split_sep [] = [[]]"
| "split_sep (ch # s) =
     (if ch = sep then [] # split_sep s
      else (case split_sep s of [] \<Rightarrow> [[ch]] | seg # segs \<Rightarrow> (ch # seg) # segs))"

fun norm_step :: "bool \<Rightarrow> string list \<Rightarrow> string \<Rightarrow> string list" where
  "norm_step allowAboveRoot res seg =
     (if seg = [] \<or> seg = ''.'' then res
      else if seg = ''..''
      then (if res \<noteq> [] \<and> last res \<noteq> ''..'' then butlast res
            else if allowAboveRoot then res @ [''..''] else res)
      else res @ [seg])"

declare norm_step.simps [simp del]

definition normalizeString :: "string \<Rightarrow> bool \<Rightarrow> string" where
  "normalizeString path allowAboveRoot =
     join (foldl (norm_step allowAboveRoot) [] (split_sep path)) [sep]"

definition isAbsolute :: "string \<Rightarrow> bool" where
  "isAbsolute path = (path \<noteq> [] \<and> hd path = sep)"

text \<open>
  The loop of \<^verbatim>\<open>path.resolve\<close>: the arguments from the last to the first, then the
  working directory, until an absolute one has been prepended; empty ones are skipped.
\<close>

fun resolve_loop :: "string list \<Rightarrow> string \<Rightarrow> string \<times> bool" where
  "resolve_loop [] resolvedPath = (resolvedPath, False)"
| "resolve_loop (path # paths) resolvedPath =
     (if path = [] then resolve_loop paths resolvedPath
      else if hd path = sep then (path @ [sep] @ resolvedPath, True)
      else resolve_loop paths (path @ [sep] @ resolvedPath))"

definition path_resolve :: "string \<Rightarrow> string list \<Rightarrow> string" where
  "path_resolve cwd args =
     (case resolve_loop (rev args @ [cwd]) [] of
        (resolvedPath, resolvedAbsolute) \<Rightarrow>
          (let normalized = normalizeString resolvedPath (\<not> resolvedAbsolute)
           in if resolvedAbsolute then [sep] @ normalized
              else if normalized \<noteq> [] then normalized else ''.''))"

definition path_normalize :: "string \<Rightarrow> string" where
  "path_normalize path =
     (if path = [] then ''.''
      else (let isAbs = (hd path = sep);
                trailingSeparator = (last path = sep);
                normalized = normalizeString path (\<not> isAbs)
            in if normalized = []
               then (if isAbs then [sep] else if trailingSeparator then ''./'' else ''.'')
               else (let normalized' = (if trailingSeparator then normalized @ [sep] else normalized)
                     in if isAbs then [sep] @ normalized' else normalized')))"

section \<open>Path validator (utils/pathValidator.ts)\<close>

record PathValidationResult =
  input :: string
  resolved :: string
  exists :: bool
  allowed :: bool
  reason :: "string option"

definition isWithinProjectRoot :: "string \<Rightarrow> string \<Rightarrow> bool" where
  "isWithinProjectRoot absolutePath projectRoot =
     (let normalizedPath = path_normalize absolutePath;
          normalizedRoot = path_normalize projectRoot;
          rootWithSep = (if endsWith normalizedRoot [sep] then normalizedRoot else normalizedRoot @ [sep])
      in normalizedPath = normalizedRoot \<or> startsWith normalizedPath rootWithSep)"

text \<open>
  \<^verbatim>\<open>validatePath(inputPath, projectRoot)\<close>. The file system enters through \<open>accessible\<close>
  (\<^verbatim>\<open>fs.accessSync\<close> does not throw) and the process through \<open>cwd\<close>.
\<close>

definition validatePath :: "(string \<Rightarrow> bool) \<Rightarrow> string \<Rightarrow> string \<Rightarrow> string \<Rightarrow> PathValidationResult" where
  "validatePath accessible cwd inputPath projectRoot =
     (let normalizedRoot = path_resolve cwd [projectRoot];
          resolved0 = (if isAbsolute inputPath then path_resolve cwd [inputPath]
                       else path_resolve cwd [normalizedRoot, inputPath]);
          resolved1 = path_normalize resolved0;
          allowed1 = isWithinProjectRoot resolved1 normalizedRoot;
          exists1 = (allowed1 \<and> accessible resolved1)
      in \<lparr>input = inputPath, resolved = resolved1, exists = exists1, allowed = allowed1,
          reason = (if \<not> allowed1
                    then (if includes_str inputPath ''..''
                          then Some ''Path contains parent directory traversal (..)''
                          else Some ''Path is outside project root'')
                    else if \<not> exists1 then Some ''Path does not exist'' else None)\<rparr>)"

text \<open>
  The specification's side of the containment property. The normalized absolute
  resolution of a path is the list of its segments after \<^verbatim>\<open>.\<close> and empty segments are
  dropped and every \<^verbatim>\<open>..\<close> has removed the segment before it (at the root there is nothing
  to remove); a relative input is resolved against the root. A path is within the root
  when its resolution equals the root's or extends it by further segments.
\<close>

fun canonical :: "string list \<Rightarrow> string list \<Rightarrow> string list" where
  "canonical up [] = rev up"
| "canonical up (seg # segs) =
     (if seg = [] \<or> seg = ''.'' then canonical up segs
      else if seg = ''..'' then canonical (tl up) segs
      else canonical (seg # up) segs)"

definition canonical_segments :: "string \<Rightarrow> string list" where
  "canonical_segments path = canonical [] (split_sep path)"

definition spec_resolution :: "string \<Rightarrow> string \<Rightarrow> string list" where
  "spec_resolution root inputPath =
     canonical_segments (if isAbsolute inputPath then inputPath else root @ ''/'' @ inputPath)"

definition equal_or_descendant :: "string list \<Rightarrow> string list \<Rightarrow> bool" where
  "equal_or_descendant root_segments path_segments =
     (path_segments = root_segments \<or> strict_prefix root_segments path_segments)"

text \<open>
  Notions used to state and prove the containment property: a proper segment is what
  normalization leaves in an absolute path; \<open>abs_path\<close> writes a list of segments as an
  absolute path, and \<open>cat\<close> is the same string for a non-empty list.
\<close>

definition proper :: "string \<Rightarrow> bool" where
  "proper seg = (seg \<noteq> [] \<and> seg \<noteq> ''.'' \<and> seg \<noteq> ''..'' \<and> sep \<notin> set seg)"

definition abs_path :: "string list \<Rightarrow> string" where
  "abs_path segs = [sep] @ join segs [sep]"

definition cat :: "string list \<Rightarrow> string" where
  "cat segs = concat (map ((#) sep) segs)"

section \<open>Properties of the chunker\<close>

lemma lastIndexOf_upto_range:
  "lastIndexOf_upto s ch k = - 1 \<or>
   (0 \<le> lastIndexOf_upto s ch k \<and> lastIndexOf_upto s ch k \<le> int k \<and>
    lastIndexOf_upto s ch k < int (length s) \<and> s ! nat (lastIndexOf_upto s ch k) = ch)"
  by (induction k) (auto simp: nat_add_distrib)

lemma lastIndexOf_upto_hit:
  "k < length s \<Longrightarrow> s ! k = ch \<Longrightarrow> lastIndexOf_upto s ch k = int k"
  by (cases k) auto

lemma lastIndexOf_upto_miss:
  "k < length s \<Longrightarrow> s ! k \<noteq> ch \<Longrightarrow> lastIndexOf_upto s ch k < int k"
proof (cases k)
  case 0
  assume "k < length s" "s ! k \<noteq> ch"
  with 0 show ?thesis by simp
next
  case (Suc j)
  assume "k < length s" "s ! k \<noteq> ch"
  with Suc lastIndexOf_upto_range [of s ch j] show ?thesis by auto
qed

lemma lastIndexOf_range:
  "0 \<le> i \<Longrightarrow> lastIndexOf s ch i = - 1 \<or>
   (0 \<le> lastIndexOf s ch i \<and> lastIndexOf s ch i \<le> i \<and>
    lastIndexOf s ch i < int (length s) \<and> s ! nat (lastIndexOf s ch i) = ch)"
  using lastIndexOf_upto_range [of s ch "nat (min (max i 0) (int (length s) - 1))"]
  by (auto simp: lastIndexOf_def)

lemma lastIndexOf_hit:
  "0 \<le> i \<Longrightarrow> i < int (length s) \<Longrightarrow> s ! nat i = ch \<Longrightarrow> lastIndexOf s ch i = i"
  using lastIndexOf_upto_hit [of "nat i" s ch]
  by (auto simp: lastIndexOf_def min_def max_def)

lemma lastIndexOf_miss:
  "0 \<le> i \<Longrightarrow> i < int (length s) \<Longrightarrow> s ! nat i \<noteq> ch \<Longrightarrow> lastIndexOf s ch i < i"
  using lastIndexOf_upto_miss [of "nat i" s ch]
  by (auto simp: lastIndexOf_def min_def max_def)

lemma chunk_end_bounds:
  assumes "0 < c" "0 \<le> cur" "cur < int (length s)"
  shows "cur < chunk_end s c cur" and "chunk_end s c cur \<le> int (length s)"
    and "chunk_end s c cur \<le> cur + c + 1"
    and "chunk_end s c cur = cur + c + 1 \<longleftrightarrow>
           cur + c < int (length s) \<and> s ! nat (cur + c) = newline"
proof -
  have nn: "0 \<le> cur + c" using assms by simp
  note r = lastIndexOf_range [OF nn, of s newline]
  show "cur < chunk_end s c cur"
    using assms by (auto simp: chunk_end_def Let_def)
  show "chunk_end s c cur \<le> int (length s)"
    using assms r by (auto simp: chunk_end_def Let_def)
  show "chunk_end s c cur \<le> cur + c + 1"
    using assms r by (auto simp: chunk_end_def Let_def)
  show "chunk_end s c cur = cur + c + 1 \<longleftrightarrow>
           cur + c < int (length s) \<and> s ! nat (cur + c) = newline"
  proof (cases "cur + c < int (length s)")
    case False
    with assms show ?thesis by (auto simp: chunk_end_def Let_def)
  next
    case True
    show ?thesis
    proof (cases "s ! nat (cur + c) = newline")
      case hit: True
      from lastIndexOf_hit [OF nn True hit] assms True hit show ?thesis
        by (auto simp: chunk_end_def Let_def)
    next
      case miss: False
      from lastIndexOf_miss [OF nn True miss] assms True miss show ?thesis
        by (auto simp: chunk_end_def Let_def)
    qed
  qed
qed

lemma slice_inside:
  "0 \<le> a \<Longrightarrow> a \<le> b \<Longrightarrow> b \<le> int (length s) \<Longrightarrow>
   slice s a b = take (nat (b - a)) (drop (nat a) s)"
  by (simp add: slice_def Let_def min_def)

lemma chunk_loop_result:
  assumes "0 < c"
  shows "0 \<le> cur \<Longrightarrow>
         \<exists>rest. chunk_loop s c cur idx acc = Some (acc @ rest) \<and> chunks_from s c cur idx rest"
proof (induction "nat (int (length s) - cur)" arbitrary: cur idx acc rule: less_induct)
  case less
  show ?case
  proof (cases "cur < int (length s)")
    case False
    then have "chunk_loop s c cur idx acc = Some (acc @ [])"
      by (subst chunk_loop.simps) simp
    moreover from False have "chunks_from s c cur idx []" by simp
    ultimately show ?thesis by blast
  next
    case True
    let ?e = "chunk_end s c cur"
    let ?ch = "\<lparr>content = slice s cur ?e, index = idx, total = 0\<rparr>"
    from chunk_end_bounds [OF assms less.prems True]
    have gt: "cur < ?e" and le: "?e \<le> int (length s)" by auto
    from gt less.prems True have m: "nat (int (length s) - ?e) < nat (int (length s) - cur)" and nn: "0 \<le> ?e"
      by auto
    from less.hyps [OF m nn, of "idx + 1" "acc @ [?ch]"]
    obtain rest where r: "chunk_loop s c ?e (idx + 1) (acc @ [?ch]) = Some ((acc @ [?ch]) @ rest)"
      and cf: "chunks_from s c ?e (idx + 1) rest" by blast
    from True r have "chunk_loop s c cur idx acc = Some (acc @ (?ch # rest))"
      by (subst chunk_loop.simps) (simp add: Let_def)
    moreover from True cf have "chunks_from s c cur idx (?ch # rest)" by simp
    ultimately show ?thesis by blast
  qed
qed

lemma chunks_from_concat:
  "0 < c \<Longrightarrow> 0 \<le> cur \<Longrightarrow> chunks_from s c cur idx rest \<Longrightarrow>
   concat (map content rest) = drop (nat cur) s"
proof (induction rest arbitrary: cur idx)
  case Nil
  then show ?case by simp
next
  case (Cons ch rest)
  let ?e = "chunk_end s c cur"
  from Cons.prems have lt: "cur < int (length s)"
    and ch: "content ch = slice s cur ?e"
    and cf: "chunks_from s c ?e (idx + 1) rest" by auto
  from chunk_end_bounds [OF Cons.prems(1,2) lt]
  have gt: "cur < ?e" and le: "?e \<le> int (length s)" by auto
  from gt Cons.prems(2) have nn: "0 \<le> ?e" by simp
  have tl: "concat (map content rest) = drop (nat ?e) s"
    by (rule Cons.IH [OF Cons.prems(1) nn cf])
  have hd: "content ch = take (nat (?e - cur)) (drop (nat cur) s)"
    using ch slice_inside [of cur ?e s] Cons.prems(2) gt le by simp
  have split: "nat ?e = nat (?e - cur) + nat cur"
    using gt Cons.prems(2) by simp
  have "drop (nat ?e) s = drop (nat (?e - cur)) (drop (nat cur) s)"
    by (subst split) (simp only: drop_drop)
  with tl have tl': "concat (map content rest) = drop (nat (?e - cur)) (drop (nat cur) s)"
    by simp
  have "concat (map content (ch # rest)) = content ch @ concat (map content rest)"
    by simp
  also have "\<dots> = drop (nat cur) s"
    unfolding hd tl' by (rule append_take_drop_id)
  finally show ?case .
qed

lemma chunks_from_index:
  "chunks_from s c cur idx rest \<Longrightarrow> map index rest = map (\<lambda>k. idx + int k) [0..<length rest]"
proof (induction rest arbitrary: cur idx)
  case Nil
  then show ?case by simp
next
  case (Cons ch rest)
  then have i: "index ch = idx" and cf: "chunks_from s c (chunk_end s c cur) (idx + 1) rest"
    by auto
  have "map index rest = map (\<lambda>k. idx + 1 + int k) [0..<length rest]"
    by (rule Cons.IH [OF cf])
  also have "\<dots> = map (\<lambda>k. idx + int k) (map Suc [0..<length rest])"
    by simp
  also have "map Suc [0..<length rest] = [1..<Suc (length rest)]"
    by (simp only: map_Suc_upt One_nat_def)
  finally have "map index rest = map (\<lambda>k. idx + int k) [1..<Suc (length rest)]" .
  moreover have "[0..<length (ch # rest)] = 0 # [1..<Suc (length rest)]"
    by (simp add: upt_rec)
  ultimately show ?case using i by simp
qed

lemma chunks_from_nth:
  "0 < c \<Longrightarrow> 0 \<le> cur \<Longrightarrow> chunks_from s c cur idx rest \<Longrightarrow> k < length rest \<Longrightarrow>
   (let p = cur + int (length (concat (map content (take k rest))))
    in p < int (length s) \<and> content (rest ! k) = slice s p (chunk_end s c p))"
proof (induction rest arbitrary: cur idx k)
  case Nil
  then show ?case by simp
next
  case (Cons ch rest)
  let ?e = "chunk_end s c cur"
  from Cons.prems have lt: "cur < int (length s)"
    and ch: "content ch = slice s cur ?e"
    and cf: "chunks_from s c ?e (idx + 1) rest" by auto
  from chunk_end_bounds [OF Cons.prems(1,2) lt]
  have gt: "cur < ?e" and le: "?e \<le> int (length s)" by auto
  from gt Cons.prems(2) have nn: "0 \<le> ?e" by simp
  show ?case
  proof (cases k)
    case 0
    with lt ch show ?thesis by simp
  next
    case (Suc j)
    with Cons.prems(4) have j: "j < length rest" by simp
    have len: "int (length (content ch)) = ?e - cur"
      using ch slice_inside [of cur ?e s] Cons.prems(2) gt le by simp
    from Cons.IH [OF Cons.prems(1) nn cf j] Suc len show ?thesis
      by (simp add: Let_def add.assoc [symmetric])
  qed
qed

lemma chunkResponse_default:
  "chunkResponse s None = chunkResponse s (Some RESPONSE_CHUNK_SIZE_KB)"
  by (simp add: chunkResponse_def)

lemma chunkResponse_long:
  assumes "0 < kb" "int (length s) > kb * 1024"
  shows "\<exists>rest. chunkResponse s (Some kb) = Some (map (\<lambda>chunk. chunk\<lparr>total := int (length rest)\<rparr>) rest)
           \<and> chunks_from s (kb * 1024) 0 1 rest"
proof -
  from assms(1) have c: "0 < kb * 1024" by simp
  from chunk_loop_result [OF c, of 0 s 1 "[]"]
  obtain rest where r: "chunk_loop s (kb * 1024) 0 1 [] = Some rest"
    and cf: "chunks_from s (kb * 1024) 0 1 rest" by auto
  from assms(2) r have "chunkResponse s (Some kb) = Some (map (\<lambda>chunk. chunk\<lparr>total := int (length rest)\<rparr>) rest)"
    by (simp add: chunkResponse_def)
  with cf show ?thesis by blast
qed

lemma lastIndexOf_absent:
  assumes "ch \<notin> set s" "0 \<le> i"
  shows "lastIndexOf s ch i = - 1"
proof (rule ccontr)
  assume "lastIndexOf s ch i \<noteq> - 1"
  with lastIndexOf_range [OF assms(2), of s ch]
  have "0 \<le> lastIndexOf s ch i" "lastIndexOf s ch i < int (length s)"
    "s ! nat (lastIndexOf s ch i) = ch" by auto
  then have "nat (lastIndexOf s ch i) < length s" "s ! nat (lastIndexOf s ch i) = ch" by auto
  then have "ch \<in> set s" using nth_mem by fastforce
  with assms(1) show False by simp
qed

lemma chunk_end_no_newline:
  "newline \<notin> set s \<Longrightarrow> 0 \<le> cur \<Longrightarrow> 0 < c \<Longrightarrow>
   chunk_end s c cur = (if cur + c < int (length s) then cur + c else int (length s))"
  by (simp add: chunk_end_def Let_def lastIndexOf_absent)

text \<open>
  A response of 2500 letters cut at 1024: three chunks of 1024, 1024 and 452 letters.
\<close>

lemma three_chunks:
  "chunkResponse (replicate 2500 (CHR ''A'')) (Some 1) =
     Some [\<lparr>content = replicate 1024 (CHR ''A''), index = 1, total = 3\<rparr>,
           \<lparr>content = replicate 1024 (CHR ''A''), index = 2, total = 3\<rparr>,
           \<lparr>content = replicate 452 (CHR ''A''), index = 3, total = 3\<rparr>]"
proof -
  let ?s = "replicate 2500 (CHR ''A'')"
  have nn: "newline \<notin> set ?s" by (simp add: newline_def)
  have e0: "chunk_end ?s 1024 0 = 1024" and e1: "chunk_end ?s 1024 1024 = 2048"
    and e2: "chunk_end ?s 1024 2048 = 2500"
    by (simp_all add: chunk_end_no_newline [OF nn])
  have s0: "slice ?s 0 1024 = replicate 1024 (CHR ''A'')"
    and s1: "slice ?s 1024 2048 = replicate 1024 (CHR ''A'')"
    and s2: "slice ?s 2048 2500 = replicate 452 (CHR ''A'')"
    by (simp_all add: slice_def Let_def)
  have l3: "chunk_loop ?s 1024 2500 4 chs = Some chs" for chs
    by (subst chunk_loop.simps) simp
  have l2: "chunk_loop ?s 1024 2048 3 chs =
              Some (chs @ [\<lparr>content = replicate 452 (CHR ''A''), index = 3, total = 0\<rparr>])" for chs
    by (subst chunk_loop.simps) (simp add: Let_def e2 s2 l3)
  have l1: "chunk_loop ?s 1024 1024 2 chs =
              Some (chs @ [\<lparr>content = replicate 1024 (CHR ''A''), index = 2, total = 0\<rparr>,
                           \<lparr>content = replicate 452 (CHR ''A''), index = 3, total = 0\<rparr>])" for chs
    by (subst chunk_loop.simps) (simp add: Let_def e1 s1 l2)
  have l0: "chunk_loop ?s 1024 0 1 [] =
              Some [\<lparr>content = replicate 1024 (CHR ''A''), index = 1, total = 0\<rparr>,
                    \<lparr>content = replicate 1024 (CHR ''A''), index = 2, total = 0\<rparr>,
                    \<lparr>content = replicate 452 (CHR ''A''), index = 3, total = 0\<rparr>]"
    by (subst chunk_loop.simps) (simp add: Let_def e0 s0 l1)
  show ?thesis
    by (simp add: chunkResponse_def l0)
qed

text \<open>
  Claim C2. For a positive chunk size, \<open>chunkResponse\<close> returns, and the contents of the
  chunks it returns, concatenated in list order, are the response itself; the chunks are
  numbered 1, 2, ... in that order and each carries the number of chunks as its total.
  A response no longer than the byte target comes back as the single chunk with index 1
  and total 1 holding the whole response.
\<close>

theorem chunkResponse_roundtrip:
  assumes "0 < kb"
  shows "\<exists>chs. chunkResponse s (Some kb) = Some chs
           \<and> concat (map content chs) = s
           \<and> map index chs = map int [1..<Suc (length chs)]
           \<and> (\<forall>ch \<in> set chs. total ch = int (length chs))
           \<and> (int (length s) \<le> kb * 1024 \<longrightarrow> chs = [\<lparr>content = s, index = 1, total = 1\<rparr>])"
proof (cases "int (length s) \<le> kb * 1024")
  case True
  then have "chunkResponse s (Some kb) = Some [\<lparr>content = s, index = 1, total = 1\<rparr>]"
    by (simp add: chunkResponse_def)
  then show ?thesis by (simp add: upt_rec)
next
  case False
  then have long: "int (length s) > kb * 1024" by simp
  from assms have c: "0 < kb * 1024" by simp
  from chunkResponse_long [OF assms long]
  obtain rest where r: "chunkResponse s (Some kb) = Some (map (\<lambda>chunk. chunk\<lparr>total := int (length rest)\<rparr>) rest)"
    and cf: "chunks_from s (kb * 1024) 0 1 rest" by blast
  let ?chs = "map (\<lambda>chunk. chunk\<lparr>total := int (length rest)\<rparr>) rest"
  have content: "map content ?chs = map content rest" by simp
  have whole: "concat (map content rest) = drop (nat 0) s"
    by (rule chunks_from_concat [OF c _ cf]) simp
  have cat: "concat (map content ?chs) = s"
    unfolding content whole by simp
  have "map index ?chs = map index rest" by simp
  also have "\<dots> = map (\<lambda>k. 1 + int k) [0..<length rest]"
    by (rule chunks_from_index [OF cf])
  also have "\<dots> = map int (map Suc [0..<length rest])"
    by simp
  also have "map Suc [0..<length rest] = [1..<Suc (length rest)]"
    by (simp only: map_Suc_upt One_nat_def)
  finally have idx: "map index ?chs = map int [1..<Suc (length ?chs)]" by simp
  have tot: "\<forall>ch \<in> set ?chs. total ch = int (length ?chs)" by auto
  from r cat idx tot False show ?thesis by blast
qed

theorem chunkResponse_roundtrip_witness:
  "(0::int) < 1 \<and>
   chunkResponse ''line one'' (Some 1) = Some [\<lparr>content = ''line one'', index = 1, total = 1\<rparr>] \<and>
   (\<exists>chs. chunkResponse (replicate 2500 (CHR ''A'')) (Some 1) = Some chs \<and>
      concat (map content chs) = replicate 2500 (CHR ''A'') \<and>
      map index chs = map int [1..<Suc (length chs)] \<and>
      (\<forall>ch \<in> set chs. total ch = int (length chs))) \<and>
   chunkResponse (replicate 2500 (CHR ''A'')) (Some 1) =
     Some [\<lparr>content = replicate 1024 (CHR ''A''), index = 1, total = 3\<rparr>,
           \<lparr>content = replicate 1024 (CHR ''A''), index = 2, total = 3\<rparr>,
           \<lparr>content = replicate 452 (CHR ''A''), index = 3, total = 3\<rparr>]"
proof -
  have pos: "(0::int) < 1" by simp
  have short: "int (length ''line one'') \<le> 1 * 1024" by simp
  from chunkResponse_roundtrip [OF pos, of "''line one''"] short
  have one: "chunkResponse ''line one'' (Some 1) = Some [\<lparr>content = ''line one'', index = 1, total = 1\<rparr>]"
    by blast
  from chunkResponse_roundtrip [OF pos, of "replicate 2500 (CHR ''A'')"]
  have many: "\<exists>chs. chunkResponse (replicate 2500 (CHR ''A'')) (Some 1) = Some chs \<and>
      concat (map content chs) = replicate 2500 (CHR ''A'') \<and>
      map index chs = map int [1..<Suc (length chs)] \<and>
      (\<forall>ch \<in> set chs. total ch = int (length chs))"
    by blast
  from pos one many three_chunks show ?thesis by blast
qed

text \<open>
  Claim C10. For a response longer than the byte target \<open>c = chunkSizeKB * 1024\<close>, at
  least one chunk is produced, every chunk is non-empty and at most \<open>c + 1\<close> long, and a
  chunk has length \<open>c + 1\<close> exactly when the character at the provisional cut position
  (the chunk's start plus \<open>c\<close>) exists and is a newline; that newline is then the chunk's
  last character.
\<close>

theorem chunkResponse_chunk_size:
  assumes "0 < kb" "int (length s) > kb * 1024"
  shows "\<exists>chs. chunkResponse s (Some kb) = Some chs \<and> chs \<noteq> [] \<and>
           (\<forall>k < length chs.
              0 < length (content (chs ! k)) \<and>
              int (length (content (chs ! k))) \<le> kb * 1024 + 1 \<and>
              (int (length (content (chs ! k))) = kb * 1024 + 1 \<longleftrightarrow>
                 length (concat (map content (take k chs))) + nat (kb * 1024) < length s \<and>
                 s ! (length (concat (map content (take k chs))) + nat (kb * 1024)) = newline \<and>
                 last (content (chs ! k)) = newline))"
proof -
  from assms(1) have c: "0 < kb * 1024" by simp
  from chunkResponse_long [OF assms]
  obtain rest where r: "chunkResponse s (Some kb) = Some (map (\<lambda>chunk. chunk\<lparr>total := int (length rest)\<rparr>) rest)"
    and cf: "chunks_from s (kb * 1024) 0 1 rest" by blast
  let ?chs = "map (\<lambda>chunk. chunk\<lparr>total := int (length rest)\<rparr>) rest"
  from cf assms c have ne: "?chs \<noteq> []"
    by (cases rest) auto
  have "0 < length (content (?chs ! k)) \<and>
        int (length (content (?chs ! k))) \<le> kb * 1024 + 1 \<and>
        (int (length (content (?chs ! k))) = kb * 1024 + 1 \<longleftrightarrow>
           length (concat (map content (take k ?chs))) + nat (kb * 1024) < length s \<and>
           s ! (length (concat (map content (take k ?chs))) + nat (kb * 1024)) = newline \<and>
           last (content (?chs ! k)) = newline)" if k: "k < length ?chs" for k
  proof -
    from k have k': "k < length rest" by simp
    define p where "p = length (concat (map content (take k rest)))"
    let ?e = "chunk_end s (kb * 1024) (int p)"
    have tk: "map content (take k ?chs) = map content (take k rest)"
      by (simp add: take_map)
    have ck: "content (?chs ! k) = content (rest ! k)"
      using k' by simp
    from chunks_from_nth [OF c _ cf k'] have lt: "int p < int (length s)"
      and ct: "content (rest ! k) = slice s (int p) ?e"
      by (simp_all add: Let_def p_def)
    from chunk_end_bounds [OF c _ lt]
    have gt: "int p < ?e" and le: "?e \<le> int (length s)" and up: "?e \<le> int p + kb * 1024 + 1"
      and eq: "?e = int p + kb * 1024 + 1 \<longleftrightarrow>
                 int p + kb * 1024 < int (length s) \<and> s ! nat (int p + kb * 1024) = newline"
      by auto
    have ct': "content (rest ! k) = take (nat (?e - int p)) (drop p s)"
      using ct slice_inside [of "int p" ?e s] gt le by simp
    then have len: "int (length (content (rest ! k))) = ?e - int p"
      using gt le by simp
    have idx: "nat (int p + kb * 1024) = p + nat (kb * 1024)"
      using c by (simp add: nat_add_distrib)
    have lt_iff: "int p + kb * 1024 < int (length s) \<longleftrightarrow> p + nat (kb * 1024) < length s"
      using c by linarith
    have lastc: "last (content (rest ! k)) = newline"
      if full: "?e = int p + kb * 1024 + 1"
    proof -
      from full eq have inr: "int p + kb * 1024 < int (length s)"
        and nl: "s ! nat (int p + kb * 1024) = newline" by auto
      from full c have n: "nat (?e - int p) = Suc (nat (kb * 1024))" by simp
      have ne: "content (rest ! k) \<noteq> []"
        using len gt by auto
      have "last (content (rest ! k)) = content (rest ! k) ! (length (content (rest ! k)) - 1)"
        by (rule last_conv_nth [OF ne])
      also have "length (content (rest ! k)) - 1 = nat (kb * 1024)"
        using len full c by simp
      also have "content (rest ! k) ! nat (kb * 1024) = s ! (p + nat (kb * 1024))"
        unfolding ct' n using inr lt_iff by simp
      finally show ?thesis using nl idx by simp
    qed
    show ?thesis
      unfolding tk ck p_def [symmetric]
      using len gt up eq lastc idx lt_iff by auto
  qed
  with r ne show ?thesis by blast
qed

theorem chunkResponse_chunk_size_witness:
  "(0::int) < 1 \<and> int (length (replicate 2500 (CHR ''A''))) > 1 * 1024 \<and>
   (\<exists>chs. chunkResponse (replicate 2500 (CHR ''A'')) (Some 1) = Some chs \<and> chs \<noteq> [] \<and>
      (\<forall>k < length chs.
         0 < length (content (chs ! k)) \<and> int (length (content (chs ! k))) \<le> 1025)) \<and>
   chunkResponse (replicate 2500 (CHR ''A'')) (Some 1) =
     Some [\<lparr>content = replicate 1024 (CHR ''A''), index = 1, total = 3\<rparr>,
           \<lparr>content = replicate 1024 (CHR ''A''), index = 2, total = 3\<rparr>,
           \<lparr>content = replicate 452 (CHR ''A''), index = 3, total = 3\<rparr>]"
proof -
  have pos: "(0::int) < 1" by simp
  have long: "int (length (replicate 2500 (CHR ''A''))) > 1 * 1024" by simp
  from chunkResponse_chunk_size [OF pos long]
  obtain chs where "chunkResponse (replicate 2500 (CHR ''A'')) (Some 1) = Some chs" "chs \<noteq> []"
    "\<forall>k < length chs.
         0 < length (content (chs ! k)) \<and> int (length (content (chs ! k))) \<le> 1 * 1024 + 1"
    by blast
  then have "\<exists>chs. chunkResponse (replicate 2500 (CHR ''A'')) (Some 1) = Some chs \<and> chs \<noteq> [] \<and>
      (\<forall>k < length chs.
         0 < length (content (chs ! k)) \<and> int (length (content (chs ! k))) \<le> 1025)"
    by auto
  with pos long three_chunks show ?thesis by blast
qed

section \<open>Properties of the command executor\<close>

lemma handle_output:
  "is_output e \<Longrightarrow>
   stdout (handle_event cmd prog st e) = stdout st @ stdout_of [e] \<and>
   stderr (handle_event cmd prog st e) = stderr st @ stderr_of [e] \<and>
   isResolved (handle_event cmd prog st e) = isResolved st \<and>
   settled (handle_event cmd prog st e) = settled st"
  by (cases e) (simp_all add: on_stdout_data_def on_stderr_data_def Let_def)

lemma stdout_of_append: "stdout_of (xs @ ys) = stdout_of xs @ stdout_of ys"
  by (induction xs rule: stdout_of.induct) simp_all

lemma stderr_of_append: "stderr_of (xs @ ys) = stderr_of xs @ stderr_of ys"
  by (induction xs rule: stderr_of.induct) simp_all

lemma foldl_output:
  "\<forall>e \<in> set pre. is_output e \<Longrightarrow>
   stdout (foldl (handle_event cmd prog) st pre) = stdout st @ stdout_of pre \<and>
   stderr (foldl (handle_event cmd prog) st pre) = stderr st @ stderr_of pre \<and>
   isResolved (foldl (handle_event cmd prog) st pre) = isResolved st \<and>
   settled (foldl (handle_event cmd prog) st pre) = settled st"
proof (induction pre arbitrary: st)
  case Nil
  then show ?case by simp
next
  case (Cons e pre)
  then have e: "is_output e" and rest: "\<forall>e \<in> set pre. is_output e" by auto
  from handle_output [OF e, of cmd prog st] Cons.IH [OF rest, of "handle_event cmd prog st e"]
  have "stdout (foldl (handle_event cmd prog) st (e # pre)) = (stdout st @ stdout_of [e]) @ stdout_of pre"
    and "stderr (foldl (handle_event cmd prog) st (e # pre)) = (stderr st @ stderr_of [e]) @ stderr_of pre"
    and "isResolved (foldl (handle_event cmd prog) st (e # pre)) = isResolved st"
    and "settled (foldl (handle_event cmd prog) st (e # pre)) = settled st"
    by simp_all
  moreover have "stdout_of (e # pre) = stdout_of [e] @ stdout_of pre"
    using stdout_of_append [of "[e]" pre] by simp
  moreover have "stderr_of (e # pre) = stderr_of [e] @ stderr_of pre"
    using stderr_of_append [of "[e]" pre] by simp
  ultimately show ?case by simp
qed

lemma handle_resolved:
  "isResolved st \<Longrightarrow>
   isResolved (handle_event cmd prog st e) \<and> settled (handle_event cmd prog st e) = settled st"
  by (cases e) (simp_all add: on_stdout_data_def on_stderr_data_def on_error_def on_close_def Let_def)

lemma foldl_resolved:
  "isResolved st \<Longrightarrow> settled (foldl (handle_event cmd prog) st post) = settled st"
proof (induction post arbitrary: st)
  case Nil
  then show ?case by simp
next
  case (Cons e post)
  from handle_resolved [OF Cons.prems, of cmd prog e]
  have r: "isResolved (handle_event cmd prog st e)"
    and s: "settled (handle_event cmd prog st e) = settled st" by auto
  from Cons.IH [OF r] s show ?case by simp
qed

lemma close_settles:
  "\<not> isResolved st \<Longrightarrow> settled st = None \<Longrightarrow>
   isResolved (on_close c st) \<and>
   settled (on_close c st) =
     Some (if c = Some 0 then Inr (trim (stdout st))
           else Inl (''Command failed with exit code '' @ show_code c @ '': '' @
                     (if trim (stderr st) = [] then ''Unknown error'' else trim (stderr st))))"
  by (simp add: on_close_def settle_def Let_def)

text \<open>
  Claim C8, as amended. When the child closes with exit code 0 and no spawn error came
  before, \<open>executeCommand\<close> resolves with the accumulated standard output with leading and
  trailing white space removed (\<^verbatim>\<open>stdout.trim()\<close>); for every other exit code, a missing
  code included, it rejects with a message built from the code and the trimmed standard
  error. Events after the close do not change the outcome.
\<close>

theorem executeCommand_close:
  assumes "\<forall>e \<in> set pre. is_output e"
  shows "settled (executeCommand cmd args prog (pre @ CloseEvent c # post)) =
           Some (if c = Some 0 then Inr (trim (stdout_of pre))
                 else Inl (''Command failed with exit code '' @ show_code c @ '': '' @
                           (if trim (stderr_of pre) = [] then ''Unknown error'' else trim (stderr_of pre))))"
proof -
  let ?h = "handle_event cmd prog"
  let ?st = "foldl ?h exec_init pre"
  from foldl_output [OF assms, of cmd prog exec_init]
  have out: "stdout ?st = stdout_of pre" and err: "stderr ?st = stderr_of pre"
    and nr: "\<not> isResolved ?st" and ns: "settled ?st = None"
    by (simp_all add: exec_init_def)
  from close_settles [OF nr ns, of c]
  have r: "isResolved (on_close c ?st)"
    and s: "settled (on_close c ?st) =
     Some (if c = Some 0 then Inr (trim (stdout ?st))
           else Inl (''Command failed with exit code '' @ show_code c @ '': '' @
                     (if trim (stderr ?st) = [] then ''Unknown error'' else trim (stderr ?st))))"
    by auto
  have "settled (executeCommand cmd args prog (pre @ CloseEvent c # post)) =
          settled (foldl ?h (on_close c ?st) post)"
    by (simp add: executeCommand_def)
  also have "\<dots> = settled (on_close c ?st)"
    by (rule foldl_resolved [OF r])
  finally show ?thesis
    unfolding s out err .
qed

text \<open>
  Claim C8 as stated fails: the standard output \<^verbatim>\<open>"ok\\n"\<close> of a child that exits with
  code 0 is resolved as \<^verbatim>\<open>"ok"\<close>, not unmodified.
\<close>

theorem executeCommand_trims_counterexample:
  "settled (executeCommand ''gemini'' [''-p'', ''hi''] False [StdoutData (''ok'' @ [newline]), CloseEvent (Some 0)])
     = Some (Inr ''ok'') \<and>
   settled (executeCommand ''gemini'' [''-p'', ''hi''] False [StdoutData (''ok'' @ [newline]), CloseEvent (Some 0)])
     \<noteq> Some (Inr (''ok'' @ [newline]))"
  by (simp add: executeCommand_def exec_init_def on_stdout_data_def on_close_def settle_def trim_def
      isWhiteSpace_def newline_def Let_def)

theorem executeCommand_close_witness:
  "is_output (StdoutData ''  ok '') \<and> is_output (StderrData ''warn'') \<and>
   settled (executeCommand ''gemini'' [''-p'', ''hi''] True
              ([StdoutData ''  ok '', StderrData ''warn''] @ CloseEvent (Some 0) # [])) = Some (Inr ''ok'') \<and>
   settled (executeCommand ''gemini'' [''-p'', ''hi''] True
              ([StdoutData ''  ok '', StderrData ''warn''] @ CloseEvent (Some 1) # [])) =
     Some (Inl ''Command failed with exit code 1: warn'')"
proof -
  have h: "\<forall>e \<in> set [StdoutData ''  ok '', StderrData ''warn'']. is_output e" by simp
  have t1: "trim ''  ok '' = ''ok''" and t2: "trim ''warn'' = ''warn''"
    by (simp_all add: trim_def isWhiteSpace_def)
  have c1: "show_code (Some 1) = ''1''"
    by (simp add: show_code_def show_int_def show_nat.simps)
  from executeCommand_close [OF h, of "''gemini''" "[''-p'', ''hi'']" True "Some 0" "[]"] t1
  have a: "settled (executeCommand ''gemini'' [''-p'', ''hi''] True
              ([StdoutData ''  ok '', StderrData ''warn''] @ CloseEvent (Some 0) # [])) = Some (Inr ''ok'')"
    by simp
  from executeCommand_close [OF h, of "''gemini''" "[''-p'', ''hi'']" True "Some 1" "[]"] t2 c1
  have b: "settled (executeCommand ''gemini'' [''-p'', ''hi''] True
              ([StdoutData ''  ok '', StderrData ''warn''] @ CloseEvent (Some 1) # [])) =
     Some (Inl ''Command failed with exit code 1: warn'')"
    by simp
  from a b show ?thesis by simp
qed

lemma handle_not_output:
  "\<not> is_output e \<Longrightarrow> \<not> isResolved st \<Longrightarrow> settled st = None \<Longrightarrow>
   isResolved (handle_event cmd prog st e) \<and> settled (handle_event cmd prog st e) \<noteq> None"
  by (cases e) (simp_all add: on_error_def on_close_def settle_def Let_def)

lemma executeCommand_pending_iff:
  "settled (executeCommand cmd args prog events) = None \<longleftrightarrow> (\<forall>e \<in> set events. is_output e)"
proof
  assume "\<forall>e \<in> set events. is_output e"
  from foldl_output [OF this, of cmd prog exec_init]
  show "settled (executeCommand cmd args prog events) = None"
    by (simp add: executeCommand_def exec_init_def)
next
  assume pending: "settled (executeCommand cmd args prog events) = None"
  show "\<forall>e \<in> set events. is_output e"
  proof (rule ccontr)
    assume "\<not> (\<forall>e \<in> set events. is_output e)"
    then have "\<exists>e \<in> set events. \<not> is_output e" by blast
    from split_list_first_prop [OF this]
    obtain pre e post where ev: "events = pre @ e # post" and e: "\<not> is_output e"
      and pre: "\<forall>x \<in> set pre. \<not> \<not> is_output x" by blast
    from pre have pre': "\<forall>x \<in> set pre. is_output x" by simp
    let ?st = "foldl (handle_event cmd prog) exec_init pre"
    from foldl_output [OF pre', of cmd prog exec_init]
    have nr: "\<not> isResolved ?st" and ns: "settled ?st = None"
      by (simp_all add: exec_init_def)
    from handle_not_output [OF e nr ns, of cmd prog]
    have r: "isResolved (handle_event cmd prog ?st e)"
      and s: "settled (handle_event cmd prog ?st e) \<noteq> None" by auto
    have "settled (executeCommand cmd args prog events) =
            settled (foldl (handle_event cmd prog) (handle_event cmd prog ?st e) post)"
      by (simp add: executeCommand_def ev)
    also have "\<dots> = settled (handle_event cmd prog ?st e)"
      by (rule foldl_resolved [OF r])
    finally show False using s pending by simp
  qed
qed

lemma rc_output:
  "\<forall>e \<in> set pre. is_output e \<Longrightarrow>
   timedOut (foldl (rc_handle cmd t) st (map Child pre)) = timedOut st \<and>
   timerCleared (foldl (rc_handle cmd t) st (map Child pre)) = timerCleared st \<and>
   killed (foldl (rc_handle cmd t) st (map Child pre)) = killed st \<and>
   rc_settled (foldl (rc_handle cmd t) st (map Child pre)) = rc_settled st"
proof (induction pre arbitrary: st)
  case Nil
  then show ?case by simp
next
  case (Cons e pre)
  then have e: "is_output e" and rest: "\<forall>e \<in> set pre. is_output e" by auto
  from e have "timedOut (rc_handle cmd t st (Child e)) = timedOut st \<and>
      timerCleared (rc_handle cmd t st (Child e)) = timerCleared st \<and>
      killed (rc_handle cmd t st (Child e)) = killed st \<and>
      rc_settled (rc_handle cmd t st (Child e)) = rc_settled st"
    by (cases e) simp_all
  with Cons.IH [OF rest, of "rc_handle cmd t st (Child e)"] show ?case by simp
qed

lemma rc_handle_keeps:
  "killed st \<Longrightarrow> rc_settled st = Some r \<Longrightarrow>
   killed (rc_handle cmd t st ev) \<and> rc_settled (rc_handle cmd t st ev) = Some r"
proof (cases ev)
  case TimerFired
  assume "killed st" "rc_settled st = Some r"
  with TimerFired show ?thesis by (simp add: rc_settle_def)
next
  case (Child e)
  assume "killed st" "rc_settled st = Some r"
  with Child show ?thesis by (cases e) (simp_all add: rc_settle_def Let_def)
qed

lemma rc_foldl_keeps:
  "killed st \<Longrightarrow> rc_settled st = Some r \<Longrightarrow>
   killed (foldl (rc_handle cmd t) st post) \<and> rc_settled (foldl (rc_handle cmd t) st post) = Some r"
proof (induction post arbitrary: st)
  case Nil
  then show ?case by simp
next
  case (Cons ev post)
  from rc_handle_keeps [OF Cons.prems, of cmd t ev] Cons.IH [of "rc_handle cmd t st ev"]
  show ?case by simp
qed

lemma runCommand_timeout:
  assumes "\<forall>e \<in> set pre. is_output e"
  shows "killed (runCommand cmd args timeoutMs (map Child pre @ TimerFired # post)) \<and>
         rc_settled (runCommand cmd args timeoutMs (map Child pre @ TimerFired # post)) =
           Some (Inl (''Command timed out after '' @
                      show_int (case timeoutMs of None \<Rightarrow> 60000 | Some t \<Rightarrow> t) @ ''ms''))"
proof -
  define t where "t = (case timeoutMs of None \<Rightarrow> 60000 | Some t \<Rightarrow> t)"
  let ?st = "foldl (rc_handle cmd t) run_init (map Child pre)"
  from rc_output [OF assms, of cmd t run_init]
  have "\<not> timedOut ?st" "\<not> timerCleared ?st" "rc_settled ?st = None"
    by (simp_all add: run_init_def)
  then have k: "killed (rc_handle cmd t ?st TimerFired)"
    and s: "rc_settled (rc_handle cmd t ?st TimerFired) =
              Some (Inl (''Command timed out after '' @ show_int t @ ''ms''))"
    by (simp_all add: rc_settle_def)
  have "runCommand cmd args timeoutMs (map Child pre @ TimerFired # post) =
          foldl (rc_handle cmd t) (rc_handle cmd t ?st TimerFired) post"
    by (simp add: runCommand_def t_def)
  with rc_foldl_keeps [OF k s, of cmd t post] show ?thesis
    by (simp add: t_def)
qed

text \<open>
  Claim C9, as amended. \<open>executeCommand\<close> has no timeout: its promise is pending exactly
  as long as the child has delivered output only, and settles on the child's first error
  or close event and on nothing else. The hard timeout is in the setup wizard's
  \<open>runCommand\<close> (60000 ms when omitted): when its timer fires before the child has
  reported an error or closed, the child is killed and the promise is rejected with the
  time-out message, whatever happens afterwards.
\<close>

theorem executeCommand_no_timeout:
  "(settled (executeCommand cmd args prog events) = None \<longleftrightarrow> (\<forall>e \<in> set events. is_output e)) \<and>
   ((\<forall>e \<in> set pre. is_output e) \<longrightarrow>
      killed (runCommand cmd args timeoutMs (map Child pre @ TimerFired # post)) \<and>
      rc_settled (runCommand cmd args timeoutMs (map Child pre @ TimerFired # post)) =
        Some (Inl (''Command timed out after '' @
                   show_int (case timeoutMs of None \<Rightarrow> 60000 | Some t \<Rightarrow> t) @ ''ms'')))"
  using executeCommand_pending_iff [of cmd args prog events]
    runCommand_timeout [of pre cmd args timeoutMs post]
  by blast

theorem executeCommand_no_timeout_witness:
  "is_output (StdoutData ''working'') \<and>
   settled (executeCommand ''gemini'' [''--version''] False [StdoutData ''working'']) = None \<and>
   killed (runCommand ''gemini'' [''--version''] None (map Child [StdoutData ''working''] @ TimerFired # [])) \<and>
   rc_settled (runCommand ''gemini'' [''--version''] None (map Child [StdoutData ''working''] @ TimerFired # [])) =
     Some (Inl ''Command timed out after 60000ms'')"
proof -
  have h: "\<forall>e \<in> set [StdoutData ''working'']. is_output e" by simp
  have n: "show_int 60000 = ''60000''"
    by (simp add: show_int_def show_nat.simps)
  from executeCommand_no_timeout [of "''gemini''" "[''--version'']" False "[StdoutData ''working'']"
      "[StdoutData ''working'']" None "[]"] h n
  show ?thesis by simp
qed

text \<open>
  Claim C9 as stated fails: a child of \<open>executeCommand\<close> that has printed and then hangs
  leaves the promise pending; no argument of \<open>executeCommand\<close> carries a timeout.
\<close>

theorem executeCommand_hangs_counterexample:
  "settled (executeCommand ''gemini'' [''-p'', ''hi''] False [StdoutData ''working'']) = None"
  by (simp add: executeCommand_def exec_init_def on_stdout_data_def Let_def)

section \<open>Properties of the Gemini CLI executor\<close>

lemma tier_loop_step:
  assumes "i < length tiers"
  shows "tier_loop w parse elapsed prog p tiers i le evs =
     (case settled (attempt_run w prog p tiers i) of
        None \<Rightarrow> (None, evs @ attempt_trace w prog p tiers i)
      | Some (Inr out) \<Rightarrow>
          (Some (Inr (make_response parse elapsed (tiers ! i) out)), evs @ attempt_trace w prog p tiers i)
      | Some (Inl m) \<Rightarrow>
          if isQuotaError m \<and> Suc i < length tiers
          then tier_loop w parse elapsed prog p tiers (Suc i) (Some m) (evs @ attempt_trace w prog p tiers i)
          else (Some (Inl m), evs @ attempt_trace w prog p tiers i))"
proof -
  let ?args = "buildGeminiArgs p (tiers ! i)"
  let ?run = "executeCommand GEMINI ?args prog (w i GEMINI ?args)"
  have arith: "(int i < int (length tiers) - 1) = (Suc i < length tiers)" by auto
  have run: "attempt_run w prog p tiers i = ?run"
    by (simp add: attempt_run_def attempt_args_def)
  have tr: "attempt_trace w prog p tiers i =
      (if i > 0 \<and> prog
       then [Progress ((if i = 1 then FALLBACK_RETRY else AUTO_SELECT_RETRY) @ [newline])]
       else []) @ [Spawn GEMINI ?args] @ map Progress (reported ?run)"
    by (simp add: attempt_trace_def attempt_run_def attempt_args_def)
  show ?thesis
  proof (cases "settled ?run")
    case None
    with assms show ?thesis
      unfolding run tr by (subst tier_loop.simps) (simp add: Let_def)
  next
    case (Some r)
    show ?thesis
    proof (cases r)
      case (Inl m)
      with Some assms show ?thesis
        unfolding run tr by (subst tier_loop.simps) (simp add: Let_def arith)
    next
      case (Inr out)
      with Some assms show ?thesis
        unfolding run tr by (subst tier_loop.simps) (simp add: Let_def make_response_def)
    qed
  qed
qed

lemma tier_loop_char:
  "i < length tiers \<Longrightarrow>
   \<exists>k. i \<le> k \<and> k < length tiers \<and>
     snd (tier_loop w parse elapsed prog p tiers i le evs) =
       evs @ concat (map (attempt_trace w prog p tiers) [i..<Suc k]) \<and>
     (\<forall>j. i \<le> j \<and> j < k \<longrightarrow>
        (\<exists>m. settled (attempt_run w prog p tiers j) = Some (Inl m) \<and> isQuotaError m \<and> Suc j < length tiers)) \<and>
     (case settled (attempt_run w prog p tiers k) of
        None \<Rightarrow> fst (tier_loop w parse elapsed prog p tiers i le evs) = None
      | Some (Inr out) \<Rightarrow>
          fst (tier_loop w parse elapsed prog p tiers i le evs) =
            Some (Inr (make_response parse elapsed (tiers ! k) out))
      | Some (Inl m) \<Rightarrow>
          \<not> (isQuotaError m \<and> Suc k < length tiers) \<and>
          fst (tier_loop w parse elapsed prog p tiers i le evs) = Some (Inl m))"
proof (induction "length tiers - i" arbitrary: i le evs)
  case 0
  then show ?case by simp
next
  case (Suc n)
  let ?run = "settled (attempt_run w prog p tiers i)"
  let ?tr = "attempt_trace w prog p tiers i"
  have one: "concat (map (attempt_trace w prog p tiers) [i..<Suc i]) = ?tr" by simp
  show ?case
  proof (cases "\<exists>m. ?run = Some (Inl m) \<and> isQuotaError m \<and> Suc i < length tiers")
    case False
    have "snd (tier_loop w parse elapsed prog p tiers i le evs) = evs @ ?tr"
      using False tier_loop_step [OF Suc.prems, of w parse elapsed prog p le evs]
      by (auto split: option.splits sum.splits)
    moreover have "case ?run of
        None \<Rightarrow> fst (tier_loop w parse elapsed prog p tiers i le evs) = None
      | Some (Inr out) \<Rightarrow>
          fst (tier_loop w parse elapsed prog p tiers i le evs) =
            Some (Inr (make_response parse elapsed (tiers ! i) out))
      | Some (Inl m) \<Rightarrow>
          \<not> (isQuotaError m \<and> Suc i < length tiers) \<and>
          fst (tier_loop w parse elapsed prog p tiers i le evs) = Some (Inl m)"
      using False tier_loop_step [OF Suc.prems, of w parse elapsed prog p le evs]
      by (auto split: option.splits sum.splits)
    ultimately have "i \<le> i \<and> i < length tiers \<and>
     snd (tier_loop w parse elapsed prog p tiers i le evs) =
       evs @ concat (map (attempt_trace w prog p tiers) [i..<Suc i]) \<and>
     (\<forall>j. i \<le> j \<and> j < i \<longrightarrow>
        (\<exists>m. settled (attempt_run w prog p tiers j) = Some (Inl m) \<and> isQuotaError m \<and> Suc j < length tiers)) \<and>
     (case settled (attempt_run w prog p tiers i) of
        None \<Rightarrow> fst (tier_loop w parse elapsed prog p tiers i le evs) = None
      | Some (Inr out) \<Rightarrow>
          fst (tier_loop w parse elapsed prog p tiers i le evs) =
            Some (Inr (make_response parse elapsed (tiers ! i) out))
      | Some (Inl m) \<Rightarrow>
          \<not> (isQuotaError m \<and> Suc i < length tiers) \<and>
          fst (tier_loop w parse elapsed prog p tiers i le evs) = Some (Inl m))"
      using Suc.prems one by auto
    then show ?thesis by (rule exI)
  next
    case True
    then obtain m where m: "?run = Some (Inl m)" and q: "isQuotaError m" and lt: "Suc i < length tiers"
      by blast
    from Suc.hyps(2) lt have n: "n = length tiers - Suc i" by simp
    have step: "tier_loop w parse elapsed prog p tiers i le evs =
                  tier_loop w parse elapsed prog p tiers (Suc i) (Some m) (evs @ ?tr)"
      using tier_loop_step [OF Suc.prems, of w parse elapsed prog p le evs] m q lt by simp
    from Suc.hyps(1) [OF n lt, of "Some m" "evs @ ?tr"]
    obtain k where k1: "Suc i \<le> k" and k2: "k < length tiers"
      and tr: "snd (tier_loop w parse elapsed prog p tiers (Suc i) (Some m) (evs @ ?tr)) =
                 (evs @ ?tr) @ concat (map (attempt_trace w prog p tiers) [Suc i..<Suc k])"
      and retry: "\<forall>j. Suc i \<le> j \<and> j < k \<longrightarrow>
        (\<exists>m. settled (attempt_run w prog p tiers j) = Some (Inl m) \<and> isQuotaError m \<and> Suc j < length tiers)"
      and fin: "case settled (attempt_run w prog p tiers k) of
        None \<Rightarrow> fst (tier_loop w parse elapsed prog p tiers (Suc i) (Some m) (evs @ ?tr)) = None
      | Some (Inr out) \<Rightarrow>
          fst (tier_loop w parse elapsed prog p tiers (Suc i) (Some m) (evs @ ?tr)) =
            Some (Inr (make_response parse elapsed (tiers ! k) out))
      | Some (Inl m') \<Rightarrow>
          \<not> (isQuotaError m' \<and> Suc k < length tiers) \<and>
          fst (tier_loop w parse elapsed prog p tiers (Suc i) (Some m) (evs @ ?tr)) = Some (Inl m')"
      by blast
    from k1 have upt: "[i..<Suc k] = i # [Suc i..<Suc k]"
      by (simp add: upt_conv_Cons)
    have tr': "snd (tier_loop w parse elapsed prog p tiers i le evs) =
                 evs @ concat (map (attempt_trace w prog p tiers) [i..<Suc k])"
      unfolding step tr upt by simp
    have retry': "\<forall>j. i \<le> j \<and> j < k \<longrightarrow>
        (\<exists>m. settled (attempt_run w prog p tiers j) = Some (Inl m) \<and> isQuotaError m \<and> Suc j < length tiers)"
    proof (intro allI impI)
      fix j assume j: "i \<le> j \<and> j < k"
      show "\<exists>m. settled (attempt_run w prog p tiers j) = Some (Inl m) \<and> isQuotaError m \<and> Suc j < length tiers"
      proof (cases "j = i")
        case True
        with m q lt show ?thesis by blast
      next
        case False
        with j have "Suc i \<le> j \<and> j < k" by simp
        with retry show ?thesis by blast
      qed
    qed
    from k1 have ik: "i \<le> k" by simp
    from fin have fin': "case settled (attempt_run w prog p tiers k) of
        None \<Rightarrow> fst (tier_loop w parse elapsed prog p tiers i le evs) = None
      | Some (Inr out) \<Rightarrow>
          fst (tier_loop w parse elapsed prog p tiers i le evs) =
            Some (Inr (make_response parse elapsed (tiers ! k) out))
      | Some (Inl m') \<Rightarrow>
          \<not> (isQuotaError m' \<and> Suc k < length tiers) \<and>
          fst (tier_loop w parse elapsed prog p tiers i le evs) = Some (Inl m')"
      unfolding step .
    from ik k2 tr' retry' fin' show ?thesis
      by blast
  qed
qed

lemma length_getModelTiers: "length (getModelTiers toolName) = 3"
  by (simp add: getModelTiers_def Let_def)

text \<open>
  Claim C5. One call of \<open>executeGeminiCLI\<close> attempts the tiers \<open>0, 1, ..., k\<close> of the
  tool's plan in this order, each once, for some \<open>k\<close> below the number of tiers. Every
  attempt before \<open>k\<close> failed with a message that \<open>isQuotaError\<close> accepts and was not the
  last tier. Attempt \<open>k\<close> decides the call: a pending child leaves the call pending, a
  success is returned with that tier's model, and a failure is thrown with its message
  unchanged, which happens only when the message is not a quota message or \<open>k\<close> is the
  last tier. So a failed attempt is followed by the next tier exactly when its message
  is a quota message and it is not the last tier. When a progress callback was supplied,
  each attempt after the first starts with the fallback note, passed to the callback
  directly before the spawn.
\<close>

theorem executeGeminiCLI_fallback:
  "\<exists>k < length (getModelTiers toolName).
     snd (executeGeminiCLI w parse elapsed prompt toolName prog) =
       concat (map (attempt_trace w prog (finalPrompt prompt) (getModelTiers toolName)) [0..<Suc k]) \<and>
     (\<forall>j < k. \<exists>m. settled (attempt_run w prog (finalPrompt prompt) (getModelTiers toolName) j) = Some (Inl m) \<and>
                 isQuotaError m \<and> Suc j < length (getModelTiers toolName)) \<and>
     (case settled (attempt_run w prog (finalPrompt prompt) (getModelTiers toolName) k) of
        None \<Rightarrow> fst (executeGeminiCLI w parse elapsed prompt toolName prog) = None
      | Some (Inr out) \<Rightarrow>
          fst (executeGeminiCLI w parse elapsed prompt toolName prog) =
            Some (Inr (make_response parse elapsed (getModelTiers toolName ! k) out))
      | Some (Inl m) \<Rightarrow>
          \<not> (isQuotaError m \<and> Suc k < length (getModelTiers toolName)) \<and>
          fst (executeGeminiCLI w parse elapsed prompt toolName prog) = Some (Inl m)) \<and>
     (\<forall>j. attempt_trace w prog (finalPrompt prompt) (getModelTiers toolName) j =
        (if 0 < j \<and> prog
         then [Progress ((if j = 1 then FALLBACK_RETRY else AUTO_SELECT_RETRY) @ [newline])]
         else []) @
        Spawn GEMINI (buildGeminiArgs (finalPrompt prompt) (getModelTiers toolName ! j)) #
        map Progress (reported (attempt_run w prog (finalPrompt prompt) (getModelTiers toolName) j)))"
proof -
  let ?tiers = "getModelTiers toolName"
  let ?p = "finalPrompt prompt"
  have pos: "0 < length ?tiers" by (simp add: length_getModelTiers)
  from tier_loop_char [OF pos, of w parse elapsed prog ?p None "[]"]
  obtain k where k: "k < length ?tiers"
    and tr: "snd (tier_loop w parse elapsed prog ?p ?tiers 0 None []) =
               [] @ concat (map (attempt_trace w prog ?p ?tiers) [0..<Suc k])"
    and retry: "\<forall>j. 0 \<le> j \<and> j < k \<longrightarrow>
        (\<exists>m. settled (attempt_run w prog ?p ?tiers j) = Some (Inl m) \<and> isQuotaError m \<and> Suc j < length ?tiers)"
    and fin: "case settled (attempt_run w prog ?p ?tiers k) of
        None \<Rightarrow> fst (tier_loop w parse elapsed prog ?p ?tiers 0 None []) = None
      | Some (Inr out) \<Rightarrow>
          fst (tier_loop w parse elapsed prog ?p ?tiers 0 None []) =
            Some (Inr (make_response parse elapsed (?tiers ! k) out))
      | Some (Inl m) \<Rightarrow>
          \<not> (isQuotaError m \<and> Suc k < length ?tiers) \<and>
          fst (tier_loop w parse elapsed prog ?p ?tiers 0 None []) = Some (Inl m)"
    by blast
  have e: "executeGeminiCLI w parse elapsed prompt toolName prog =
             tier_loop w parse elapsed prog ?p ?tiers 0 None []"
    by (simp add: executeGeminiCLI_def)
  have shape: "\<forall>j. attempt_trace w prog ?p ?tiers j =
        (if 0 < j \<and> prog
         then [Progress ((if j = 1 then FALLBACK_RETRY else AUTO_SELECT_RETRY) @ [newline])]
         else []) @
        Spawn GEMINI (buildGeminiArgs ?p (?tiers ! j)) #
        map Progress (reported (attempt_run w prog ?p ?tiers j))"
    by (simp add: attempt_trace_def attempt_args_def)
  from tr have tr': "snd (executeGeminiCLI w parse elapsed prompt toolName prog) =
       concat (map (attempt_trace w prog ?p ?tiers) [0..<Suc k])"
    unfolding e by simp
  from retry have retry': "\<forall>j < k. \<exists>m. settled (attempt_run w prog ?p ?tiers j) = Some (Inl m) \<and>
                 isQuotaError m \<and> Suc j < length ?tiers"
    by simp
  from fin have fin': "case settled (attempt_run w prog ?p ?tiers k) of
        None \<Rightarrow> fst (executeGeminiCLI w parse elapsed prompt toolName prog) = None
      | Some (Inr out) \<Rightarrow>
          fst (executeGeminiCLI w parse elapsed prompt toolName prog) =
            Some (Inr (make_response parse elapsed (?tiers ! k) out))
      | Some (Inl m) \<Rightarrow>
          \<not> (isQuotaError m \<and> Suc k < length ?tiers) \<and>
          fst (executeGeminiCLI w parse elapsed prompt toolName prog) = Some (Inl m)"
    unfolding e .
  from k tr' retry' fin' shape show ?thesis by blast
qed

lemma quota_message:
  "isQuotaError ''Command failed with exit code 1: RESOURCE_EXHAUSTED''"
  by (simp add: isQuotaError_def toLowerCase_def upper_case_letters_def lower_case_letters_def includes_str_def Let_def sublist_code)

text \<open>
  Two consequences of the loop for the three-tier plans. When every tier fails with a
  quota message, the three tiers are attempted in order, once each, and the call throws
  the last tier's error. When the first tier fails with a quota message and the second
  succeeds, the response names the second tier's model.
\<close>

lemma all_tiers_quota_failure:
  assumes "\<forall>i < 3. \<exists>m. settled (attempt_run w prog (finalPrompt prompt) (getModelTiers toolName) i) = Some (Inl m) \<and>
                       isQuotaError m"
  shows "snd (executeGeminiCLI w parse elapsed prompt toolName prog) =
           concat (map (attempt_trace w prog (finalPrompt prompt) (getModelTiers toolName)) [0, 1, 2])"
    and "\<exists>m. fst (executeGeminiCLI w parse elapsed prompt toolName prog) = Some (Inl m) \<and> isQuotaError m \<and>
             settled (attempt_run w prog (finalPrompt prompt) (getModelTiers toolName) 2) = Some (Inl m)"
proof -
  let ?p = "finalPrompt prompt"
  let ?tiers = "getModelTiers toolName"
  let ?tr = "attempt_trace w prog ?p ?tiers"
  from assms obtain m0 m1 m2 where
    r0: "settled (attempt_run w prog ?p ?tiers 0) = Some (Inl m0)" and q0: "isQuotaError m0" and
    r1: "settled (attempt_run w prog ?p ?tiers (Suc 0)) = Some (Inl m1)" and q1: "isQuotaError m1" and
    r2: "settled (attempt_run w prog ?p ?tiers (Suc (Suc 0))) = Some (Inl m2)" and q2: "isQuotaError m2"
    by (metis One_nat_def Suc_1 lessI less_SucI numeral_3_eq_3)
  have s0: "tier_loop w parse elapsed prog ?p ?tiers 0 None [] =
              tier_loop w parse elapsed prog ?p ?tiers (Suc 0) (Some m0) ([] @ ?tr 0)"
    by (subst tier_loop_step) (simp_all add: r0 q0 length_getModelTiers)
  have s1: "tier_loop w parse elapsed prog ?p ?tiers (Suc 0) (Some m0) ([] @ ?tr 0) =
              tier_loop w parse elapsed prog ?p ?tiers (Suc (Suc 0)) (Some m1) (([] @ ?tr 0) @ ?tr (Suc 0))"
    by (subst tier_loop_step) (simp_all add: r1 q1 length_getModelTiers)
  have s2: "tier_loop w parse elapsed prog ?p ?tiers (Suc (Suc 0)) (Some m1) (([] @ ?tr 0) @ ?tr (Suc 0)) =
              (Some (Inl m2), (([] @ ?tr 0) @ ?tr (Suc 0)) @ ?tr (Suc (Suc 0)))"
    by (subst tier_loop_step) (simp_all add: r2 length_getModelTiers)
  have e: "executeGeminiCLI w parse elapsed prompt toolName prog =
             (Some (Inl m2), ?tr 0 @ ?tr (Suc 0) @ ?tr (Suc (Suc 0)))"
    unfolding executeGeminiCLI_def s0 s1 s2 by simp
  have two: "(2::nat) = Suc (Suc 0)" by simp
  show "snd (executeGeminiCLI w parse elapsed prompt toolName prog) = concat (map ?tr [0, 1, 2])"
    unfolding e two by simp
  show "\<exists>m. fst (executeGeminiCLI w parse elapsed prompt toolName prog) = Some (Inl m) \<and> isQuotaError m \<and>
             settled (attempt_run w prog ?p ?tiers 2) = Some (Inl m)"
    unfolding e two using r2 q2 by simp
qed

lemma second_tier_success:
  assumes "settled (attempt_run w prog (finalPrompt prompt) (getModelTiers toolName) 0) = Some (Inl m)"
    and "isQuotaError m"
    and "settled (attempt_run w prog (finalPrompt prompt) (getModelTiers toolName) 1) = Some (Inr out)"
  shows "\<exists>response. fst (executeGeminiCLI w parse elapsed prompt toolName prog) = Some (Inr response) \<and>
           model response = tier2 (MODEL_TIERS toolName)"
proof -
  let ?p = "finalPrompt prompt"
  let ?tiers = "getModelTiers toolName"
  let ?tr = "attempt_trace w prog ?p ?tiers"
  from assms(3) have r1: "settled (attempt_run w prog ?p ?tiers (Suc 0)) = Some (Inr out)" by simp
  have s0: "tier_loop w parse elapsed prog ?p ?tiers 0 None [] =
              tier_loop w parse elapsed prog ?p ?tiers (Suc 0) (Some m) ([] @ ?tr 0)"
    by (subst tier_loop_step) (simp_all add: assms(1,2) length_getModelTiers)
  have s1: "tier_loop w parse elapsed prog ?p ?tiers (Suc 0) (Some m) ([] @ ?tr 0) =
              (Some (Inr (make_response parse elapsed (?tiers ! Suc 0) out)), ([] @ ?tr 0) @ ?tr (Suc 0))"
    by (subst tier_loop_step) (simp_all add: r1 length_getModelTiers)
  have "model (make_response parse elapsed (?tiers ! Suc 0) out) = tier2 (MODEL_TIERS toolName)"
    by (simp add: make_response_def getModelTiers_def Let_def)
  then show ?thesis
    unfolding executeGeminiCLI_def s0 s1 by simp
qed

lemma run_quota_failure:
  "w i GEMINI (attempt_args p tiers i) = [StderrData ''RESOURCE_EXHAUSTED'', CloseEvent (Some 1)] \<Longrightarrow>
   settled (attempt_run w prog p tiers i) = Some (Inl ''Command failed with exit code 1: RESOURCE_EXHAUSTED'') \<and>
   reported (attempt_run w prog p tiers i) = []"
  by (simp add: attempt_run_def executeCommand_def exec_init_def on_stderr_data_def on_close_def
      settle_def trim_def isWhiteSpace_def show_code_def show_int_def show_nat.simps Let_def)

lemma run_success:
  "w i GEMINI (attempt_args p tiers i) = [StdoutData ''answer'', CloseEvent (Some 0)] \<Longrightarrow>
   settled (attempt_run w prog p tiers i) = Some (Inr ''answer'') \<and>
   reported (attempt_run w prog p tiers i) = (if prog then [''answer''] else [])"
  by (simp add: attempt_run_def executeCommand_def exec_init_def on_stdout_data_def on_close_def
      settle_def trim_def isWhiteSpace_def Let_def)

lemma generic_code:
  "deepResearch_catch ''Command failed with exit code 1: RESOURCE_EXHAUSTED'' =
     \<lparr>code = GEMINI_CLI_ERROR, message = ''Command failed with exit code 1: RESOURCE_EXHAUSTED'',
      nextStep = ''Check server logs for details''\<rparr>"
  by (simp add: deepResearch_catch_def includes_str_def sublist_code)

text \<open>
  Claim C3 at the input where the code departs from it. The child of every tier exits
  with code 1 and the standard error \<^verbatim>\<open>RESOURCE_EXHAUSTED\<close>, a message that
  \<open>isQuotaError\<close> accepts. \<open>executeGeminiCLI\<close> spawns the three tiers of the
  \<open>deep_research\<close> plan in order, once each, and throws the last tier's error; the tool's
  \<^verbatim>\<open>catch\<close> block, which looks for the lower-case substring \<^verbatim>\<open>quota\<close> only, then reports
  the failure under the generic code \<open>GEMINI_CLI_ERROR\<close> and not under
  \<open>QUOTA_EXCEEDED\<close>.
\<close>

theorem quota_exhaustion_reported_as_generic_error:
  "executeGeminiCLI (\<lambda>i command args. [StderrData ''RESOURCE_EXHAUSTED'', CloseEvent (Some 1)])
       parse elapsed ''Audit @src/auth.ts'' deep_research False =
     (Some (Inl ''Command failed with exit code 1: RESOURCE_EXHAUSTED''),
      [Spawn ''gemini'' (buildGeminiArgs (finalPrompt ''Audit @src/auth.ts'') (Some ''gemini-3-pro-preview'')),
       Spawn ''gemini'' (buildGeminiArgs (finalPrompt ''Audit @src/auth.ts'') (Some ''gemini-2.5-pro'')),
       Spawn ''gemini'' (buildGeminiArgs (finalPrompt ''Audit @src/auth.ts'') None)]) \<and>
   isQuotaError ''Command failed with exit code 1: RESOURCE_EXHAUSTED'' \<and>
   fst (deepResearch_try (\<lambda>i command args. [StderrData ''RESOURCE_EXHAUSTED'', CloseEvent (Some 1)])
          parse elapsed ''Audit @src/auth.ts'' False) =
     Some (Inl \<lparr>code = GEMINI_CLI_ERROR, message = ''Command failed with exit code 1: RESOURCE_EXHAUSTED'',
                nextStep = ''Check server logs for details''\<rparr>) \<and>
   GEMINI_CLI_ERROR \<noteq> QUOTA_EXCEEDED"
proof -
  let ?w = "\<lambda>(i::nat) (command::string) (args::string list). [StderrData ''RESOURCE_EXHAUSTED'', CloseEvent (Some 1)]"
  let ?p = "finalPrompt ''Audit @src/auth.ts''"
  let ?tiers = "getModelTiers deep_research"
  let ?m = "''Command failed with exit code 1: RESOURCE_EXHAUSTED''"
  have tiers: "?tiers = [Some ''gemini-3-pro-preview'', Some ''gemini-2.5-pro'', None]"
    by (simp add: getModelTiers_def PRO_DEFAULT_def PRO_FALLBACK_def AUTO_SELECT_def)
  have run: "settled (attempt_run ?w False ?p ?tiers i) = Some (Inl ?m)"
    and rep: "reported (attempt_run ?w False ?p ?tiers i) = []" for i
    using run_quota_failure [of ?w i ?p ?tiers False] by simp_all
  have tr: "attempt_trace ?w False ?p ?tiers i = [Spawn ''gemini'' (buildGeminiArgs ?p (?tiers ! i))]" for i
    by (simp add: attempt_trace_def rep attempt_args_def GEMINI_def)
  have s2: "tier_loop ?w parse elapsed False ?p ?tiers (Suc (Suc 0)) le evs =
              (Some (Inl ?m), evs @ attempt_trace ?w False ?p ?tiers (Suc (Suc 0)))" for le evs
    by (subst tier_loop_step) (simp_all add: run length_getModelTiers)
  have s1: "tier_loop ?w parse elapsed False ?p ?tiers (Suc 0) le evs =
              tier_loop ?w parse elapsed False ?p ?tiers (Suc (Suc 0)) (Some ?m)
                (evs @ attempt_trace ?w False ?p ?tiers (Suc 0))" for le evs
    by (subst tier_loop_step) (simp_all add: run length_getModelTiers quota_message)
  have s0: "tier_loop ?w parse elapsed False ?p ?tiers 0 le evs =
              tier_loop ?w parse elapsed False ?p ?tiers (Suc 0) (Some ?m)
                (evs @ attempt_trace ?w False ?p ?tiers 0)" for le evs
    by (subst tier_loop_step) (simp_all add: run length_getModelTiers quota_message)
  have e: "executeGeminiCLI ?w parse elapsed ''Audit @src/auth.ts'' deep_research False =
     (Some (Inl ?m),
      [Spawn ''gemini'' (buildGeminiArgs ?p (Some ''gemini-3-pro-preview'')),
       Spawn ''gemini'' (buildGeminiArgs ?p (Some ''gemini-2.5-pro'')),
       Spawn ''gemini'' (buildGeminiArgs ?p None)])"
    unfolding executeGeminiCLI_def s0 s1 s2 tr by (simp add: tiers)
  have t: "fst (deepResearch_try ?w parse elapsed ''Audit @src/auth.ts'' False) =
     Some (Inl \<lparr>code = GEMINI_CLI_ERROR, message = ?m, nextStep = ''Check server logs for details''\<rparr>)"
    unfolding deepResearch_try_def e by (simp add: generic_code)
  from e t quota_message show ?thesis by simp
qed


text \<open>
  Claim C4 at an input where the code departs from it (any input does). The argument
  vector of every invocation holds the flag \<^verbatim>\<open>-y\<close>, which the project's design document
  lists next to \<^verbatim>\<open>--yolo\<close> as a flag that takes Gemini CLI out of its read-only mode. The
  prompt argument is the system prompt followed by the user's prompt, and \<^verbatim>\<open>--yolo\<close>
  itself is not passed.
\<close>

theorem executeGeminiCLI_passes_yes_flag:
  "snd (executeGeminiCLI (\<lambda>i command args. [StdoutData ''answer'', CloseEvent (Some 0)])
          parse elapsed ''Summarise @README.md'' quick_query False) =
     [Spawn ''gemini'' [''-m'', ''gemini-3-flash-preview'', ''-y'', ''--output-format'', ''json'', ''-p'',
                        finalPrompt ''Summarise @README.md'']] \<and>
   ''-y'' \<in> set write_enabling_flags \<and>
   (\<forall>p m. ''-y'' \<in> set (buildGeminiArgs p m)) \<and>
   (\<forall>p. finalPrompt p = SYSTEM_PROMPT @ [newline, newline] @ ''---'' @ [newline, newline] @
                            ''USER REQUEST:'' @ [newline] @ p)"
proof -
  let ?w = "\<lambda>(i::nat) (command::string) (args::string list). [StdoutData ''answer'', CloseEvent (Some 0)]"
  let ?p = "finalPrompt ''Summarise @README.md''"
  let ?tiers = "getModelTiers quick_query"
  have run: "settled (attempt_run ?w False ?p ?tiers 0) = Some (Inr ''answer'')"
    and rep: "reported (attempt_run ?w False ?p ?tiers 0) = []"
    using run_success [of ?w 0 ?p ?tiers False] by simp_all
  have tr: "attempt_trace ?w False ?p ?tiers 0 =
      [Spawn ''gemini'' [''-m'', ''gemini-3-flash-preview'', ''-y'', ''--output-format'', ''json'', ''-p'', ?p]]"
    unfolding attempt_trace_def rep
    by (simp add: attempt_args_def GEMINI_def buildGeminiArgs_def getModelTiers_def
        FLASH_DEFAULT_def FLAG_MODEL_def FLAG_YES_def FLAG_OUTPUT_FORMAT_def FORMAT_JSON_def FLAG_PROMPT_def)
  have "snd (tier_loop ?w parse elapsed False ?p ?tiers 0 None []) = attempt_trace ?w False ?p ?tiers 0"
    by (subst tier_loop_step) (simp_all add: run length_getModelTiers)
  then show ?thesis
    unfolding executeGeminiCLI_def tr
    by (simp add: write_enabling_flags_def buildGeminiArgs_def FLAG_YES_def finalPrompt_def)
qed





theorem executeGeminiCLI_fallback_witness:
  "executeGeminiCLI
     (\<lambda>i command args. if i = 0 then [StderrData ''RESOURCE_EXHAUSTED'', CloseEvent (Some 1)]
                         else [StdoutData ''answer'', CloseEvent (Some 0)])
     (\<lambda>out. \<lparr>parsed_text = out, parsed_tokensUsed = None, parsed_toolCalls = None, parsed_filesAccessed = None\<rparr>)
     7 ''Where is the cache'' quick_query True =
   (Some (Inr \<lparr>answer = ''answer'', filesAccessed = [],
               stats = \<lparr>tokensUsed = 0, toolCalls = 0, latencyMs = 7\<rparr>,
               model = ''gemini-2.5-flash''\<rparr>),
    [Spawn ''gemini'' (buildGeminiArgs (finalPrompt ''Where is the cache'') (Some ''gemini-3-flash-preview'')),
     Progress (FALLBACK_RETRY @ [newline]),
     Spawn ''gemini'' (buildGeminiArgs (finalPrompt ''Where is the cache'') (Some ''gemini-2.5-flash'')),
     Progress ''answer''])"
proof -
  let ?w = "\<lambda>(i::nat) (command::string) (args::string list).
              if i = 0 then [StderrData ''RESOURCE_EXHAUSTED'', CloseEvent (Some 1)]
              else [StdoutData ''answer'', CloseEvent (Some 0)]"
  let ?parse = "\<lambda>out. \<lparr>parsed_text = out, parsed_tokensUsed = None, parsed_toolCalls = None, parsed_filesAccessed = None\<rparr>"
  let ?p = "finalPrompt ''Where is the cache''"
  let ?tiers = "getModelTiers quick_query"
  let ?m = "''Command failed with exit code 1: RESOURCE_EXHAUSTED''"
  let ?res = "executeGeminiCLI ?w ?parse 7 ''Where is the cache'' quick_query True"
  have tiers: "?tiers = [Some ''gemini-3-flash-preview'', Some ''gemini-2.5-flash'', None]"
    by (simp add: getModelTiers_def FLASH_DEFAULT_def FLASH_FALLBACK_def AUTO_SELECT_def)
  have run0: "settled (attempt_run ?w True ?p ?tiers 0) = Some (Inl ?m)"
    and rep0: "reported (attempt_run ?w True ?p ?tiers 0) = []"
    using run_quota_failure [of ?w 0 ?p ?tiers True] by simp_all
  have run1: "settled (attempt_run ?w True ?p ?tiers (Suc 0)) = Some (Inr ''answer'')"
    and rep1: "reported (attempt_run ?w True ?p ?tiers (Suc 0)) = [''answer'']"
    using run_success [of ?w "Suc 0" ?p ?tiers True] by simp_all
  from executeGeminiCLI_fallback [of quick_query ?w ?parse 7 "''Where is the cache''" True]
  obtain k where k: "k < length ?tiers"
    and tr: "snd ?res = concat (map (attempt_trace ?w True ?p ?tiers) [0..<Suc k])"
    and retry: "\<forall>j < k. \<exists>m. settled (attempt_run ?w True ?p ?tiers j) = Some (Inl m) \<and>
                 isQuotaError m \<and> Suc j < length ?tiers"
    and fin: "case settled (attempt_run ?w True ?p ?tiers k) of
        None \<Rightarrow> fst ?res = None
      | Some (Inr out) \<Rightarrow> fst ?res = Some (Inr (make_response ?parse 7 (?tiers ! k) out))
      | Some (Inl m) \<Rightarrow> \<not> (isQuotaError m \<and> Suc k < length ?tiers) \<and> fst ?res = Some (Inl m)"
    by blast
  have k1: "k = Suc 0"
  proof (rule ccontr)
    assume "k \<noteq> Suc 0"
    with k have "k = 0 \<or> Suc 0 < k" by (auto simp: length_getModelTiers)
    then show False
    proof
      assume "k = 0"
      with fin run0 quota_message show False by (simp add: length_getModelTiers)
    next
      assume "Suc 0 < k"
      with retry have "\<exists>m. settled (attempt_run ?w True ?p ?tiers (Suc 0)) = Some (Inl m)" by blast
      with run1 show False by simp
    qed
  qed
  from fin have f: "fst ?res = Some (Inr (make_response ?parse 7 (?tiers ! Suc 0) ''answer''))"
    unfolding k1 run1 by simp
  have t0: "attempt_trace ?w True ?p ?tiers 0 = [Spawn ''gemini'' (buildGeminiArgs ?p (?tiers ! 0))]"
    unfolding attempt_trace_def rep0 by (simp add: attempt_args_def GEMINI_def)
  have t1: "attempt_trace ?w True ?p ?tiers (Suc 0) =
      [Progress (FALLBACK_RETRY @ [newline]), Spawn ''gemini'' (buildGeminiArgs ?p (?tiers ! Suc 0)), Progress ''answer'']"
    unfolding attempt_trace_def rep1 by (simp add: attempt_args_def GEMINI_def)
  have upt: "[0..<Suc (Suc 0)] = [0, Suc 0]" by (simp add: upt_rec)
  from tr have s: "snd ?res = attempt_trace ?w True ?p ?tiers 0 @ attempt_trace ?w True ?p ?tiers (Suc 0)"
    unfolding k1 upt by simp
  have "?res = (fst ?res, snd ?res)" by simp
  also have "\<dots> = (Some (Inr (make_response ?parse 7 (?tiers ! Suc 0) ''answer'')),
      attempt_trace ?w True ?p ?tiers 0 @ attempt_trace ?w True ?p ?tiers (Suc 0))"
    unfolding f s ..
  finally show ?thesis
    unfolding t0 t1 by (simp add: tiers make_response_def)
qed

section \<open>Properties of the path validator\<close>

lemma rev_butlast_tl: "rev (butlast xs) = tl (rev xs)"
  using butlast_rev [of "rev xs"] by (simp add: rev_swap)

lemma split_sep_nonempty: "split_sep s \<noteq> []"
  by (induction s) (auto split: list.splits)

lemma split_sep_no_sep: "seg \<in> set (split_sep s) \<Longrightarrow> sep \<notin> set seg"
  by (induction s arbitrary: seg) (auto split: list.splits if_splits)

lemma split_sep_append: "split_sep (a @ sep # b) = split_sep a @ split_sep b"
proof (induction a)
  case Nil
  show ?case by simp
next
  case (Cons ch a)
  obtain seg segs where s: "split_sep a = seg # segs"
    using split_sep_nonempty [of a] by (cases "split_sep a") auto
  with Cons show ?case by simp
qed

lemma split_sep_single: "sep \<notin> set a \<Longrightarrow> split_sep a = [a]"
  by (induction a) auto

lemma split_sep_join:
  "segs \<noteq> [] \<Longrightarrow> \<forall>seg \<in> set segs. sep \<notin> set seg \<Longrightarrow> split_sep (join segs [sep]) = segs"
proof (induction segs "[sep]" rule: join.induct)
  case 1
  then show ?case by simp
next
  case (2 x)
  then show ?case by (simp add: split_sep_single)
next
  case (3 x y ys)
  then have "split_sep (join (y # ys) [sep]) = y # ys" by simp
  moreover from 3 have "split_sep x = [x]" by (simp add: split_sep_single)
  ultimately show ?case
    using split_sep_append [of x "join (y # ys) [sep]"] by simp
qed

lemma norm_step_proper_push: "proper seg \<Longrightarrow> norm_step a res seg = res @ [seg]"
  by (simp add: proper_def norm_step.simps)

lemma foldl_norm_proper:
  "\<forall>seg \<in> set segs. proper seg \<Longrightarrow> foldl (norm_step a) res segs = res @ segs"
  by (induction segs arbitrary: res) (simp_all add: norm_step_proper_push)

lemma norm_step_keeps_proper:
  "\<forall>x \<in> set res. proper x \<Longrightarrow> sep \<notin> set seg \<Longrightarrow> \<forall>x \<in> set (norm_step False res seg). proper x"
  by (auto simp: proper_def norm_step.simps dest: in_set_butlastD)

lemma foldl_norm_keeps_proper:
  "\<forall>x \<in> set res. proper x \<Longrightarrow> \<forall>seg \<in> set segs. sep \<notin> set seg \<Longrightarrow>
   \<forall>x \<in> set (foldl (norm_step False) res segs). proper x"
proof (induction segs arbitrary: res)
  case Nil
  then show ?case by simp
next
  case (Cons seg segs)
  from Cons.prems have "\<forall>x \<in> set (norm_step False res seg). proper x"
    by (intro norm_step_keeps_proper) auto
  with Cons show ?case by simp
qed

lemma foldl_norm_canonical:
  "\<forall>x \<in> set res. proper x \<Longrightarrow> \<forall>seg \<in> set segs. sep \<notin> set seg \<Longrightarrow>
   foldl (norm_step False) res segs = canonical (rev res) segs"
proof (induction segs arbitrary: res)
  case Nil
  then show ?case by simp
next
  case (Cons seg segs)
  from Cons.prems have keep: "\<forall>x \<in> set (norm_step False res seg). proper x"
    by (intro norm_step_keeps_proper) auto
  from Cons.prems have rest: "\<forall>seg \<in> set segs. sep \<notin> set seg" by simp
  have last_ok: "res \<noteq> [] \<Longrightarrow> last res \<noteq> ''..''"
    using Cons.prems(1) last_in_set [of res] by (auto simp: proper_def)
  have "canonical (rev res) (seg # segs) = canonical (rev (norm_step False res seg)) segs"
    using last_ok by (cases "res = []") (auto simp: rev_butlast_tl norm_step.simps)
  with Cons.IH [OF keep rest] show ?case by simp
qed

lemma abs_path_cat: "segs \<noteq> [] \<Longrightarrow> abs_path segs = cat segs"
  by (induction segs "[sep]" rule: join.induct) (simp_all add: abs_path_def cat_def)

lemma abs_path_Nil: "abs_path [] = [sep]"
  by (simp add: abs_path_def)

lemma cat_snoc_starts: "\<exists>t. cat segs @ [sep] = sep # t"
  by (cases segs) (simp_all add: cat_def)

lemma prefix_segment:
  "sep \<notin> set r \<Longrightarrow> sep \<notin> set a \<Longrightarrow>
   prefix (r @ sep # u) (a @ sep # v) \<longleftrightarrow> r = a \<and> prefix u v"
proof (induction r arbitrary: a)
  case Nil
  then show ?case by (cases a) auto
next
  case (Cons y r)
  then show ?case by (cases a) auto
qed

lemma prefix_cat:
  "\<forall>seg \<in> set R. sep \<notin> set seg \<Longrightarrow> \<forall>seg \<in> set A. sep \<notin> set seg \<Longrightarrow>
   prefix (cat R @ [sep]) (cat A @ [sep]) \<longleftrightarrow> prefix R A"
proof (induction R arbitrary: A)
  case Nil
  then show ?case by (cases A) (simp_all add: cat_def)
next
  case (Cons r R)
  show ?case
  proof (cases A)
    case Nil
    then show ?thesis by (simp add: cat_def)
  next
    case (Cons a A')
    obtain u where u: "cat R @ [sep] = sep # u" using cat_snoc_starts by blast
    obtain v where v: "cat A' @ [sep] = sep # v" using cat_snoc_starts by blast
    from Cons.prems Cons have r: "sep \<notin> set r" and a: "sep \<notin> set a"
      and R: "\<forall>seg \<in> set R. sep \<notin> set seg" and A': "\<forall>seg \<in> set A'. sep \<notin> set seg"
      by auto
    have "prefix (cat (r # R) @ [sep]) (cat (a # A') @ [sep]) \<longleftrightarrow>
            prefix (r @ (cat R @ [sep])) (a @ (cat A' @ [sep]))"
      by (simp add: cat_def)
    also have "\<dots> \<longleftrightarrow> r = a \<and> prefix (cat R @ [sep]) (cat A' @ [sep])"
      unfolding u v using prefix_segment [OF r a] by simp
    also have "\<dots> \<longleftrightarrow> r = a \<and> prefix R A'"
      using Cons.IH [OF R A'] by simp
    finally show ?thesis using Cons by simp
  qed
qed

lemma last_cat:
  "segs \<noteq> [] \<Longrightarrow> last segs \<noteq> [] \<Longrightarrow> last (cat segs) = last (last segs)"
proof (cases segs rule: rev_cases)
  case Nil
  assume "segs \<noteq> []"
  with Nil show ?thesis by simp
next
  case (snoc init seg)
  assume "last segs \<noteq> []"
  with snoc show ?thesis by (simp add: cat_def)
qed

lemma suffix_single: "suffix [x] s \<longleftrightarrow> s \<noteq> [] \<and> last s = x"
  by (cases s rule: rev_cases) (auto simp: suffix_def)

lemma cat_last_not_sep:
  assumes "segs \<noteq> []" "\<forall>seg \<in> set segs. proper seg"
  shows "cat segs \<noteq> []" and "last (cat segs) \<noteq> sep"
proof -
  from assms have l: "proper (last segs)" by simp
  then have ne: "last segs \<noteq> []" and ns: "sep \<notin> set (last segs)" by (simp_all add: proper_def)
  from assms(1) show "cat segs \<noteq> []" by (cases segs) (simp_all add: cat_def)
  from ne have "last (last segs) \<in> set (last segs)" by (rule last_in_set)
  with ns have "last (last segs) \<noteq> sep" by auto
  with last_cat [OF assms(1) ne] show "last (cat segs) \<noteq> sep" by simp
qed

lemma length_cat_proper:
  assumes "segs \<noteq> []" "\<forall>seg \<in> set segs. proper seg"
  shows "2 \<le> length (cat segs)"
proof (cases segs)
  case Nil
  with assms show ?thesis by simp
next
  case (Cons seg rest)
  with assms have "seg \<noteq> []" by (simp add: proper_def)
  then have "1 \<le> length seg" by (cases seg) simp_all
  with Cons show ?thesis by (simp add: cat_def)
qed

lemma within_abs_paths:
  assumes R: "\<forall>seg \<in> set R. proper seg" and A: "\<forall>seg \<in> set A. proper seg"
  shows "(abs_path A = abs_path R \<or>
          startsWith (abs_path A)
            (if endsWith (abs_path R) [sep] then abs_path R else abs_path R @ [sep]))
         \<longleftrightarrow> prefix R A"
proof (cases "R = []")
  case True
  have "prefix [sep] (abs_path A)" by (simp add: abs_path_def)
  with True show ?thesis
    by (simp add: abs_path_Nil startsWith_def endsWith_def)
next
  case False
  from cat_last_not_sep [OF False R] have "\<not> suffix [sep] (cat R)"
    by (simp add: suffix_single)
  then have root: "(if endsWith (abs_path R) [sep] then abs_path R else abs_path R @ [sep]) = cat R @ [sep]"
    by (simp add: endsWith_def abs_path_cat [OF False])
  from R A have Rs: "\<forall>seg \<in> set R. sep \<notin> set seg" and As: "\<forall>seg \<in> set A. sep \<notin> set seg"
    by (simp_all add: proper_def)
  show ?thesis
  proof (cases "A = []")
    case True
    from length_cat_proper [OF False R] have len: "2 \<le> length (cat R)" .
    then have "cat R \<noteq> [sep]" by auto
    moreover have "\<not> prefix (cat R @ [sep]) [sep]"
    proof
      assume "prefix (cat R @ [sep]) [sep]"
      then have "length (cat R @ [sep]) \<le> length [sep]" by (rule prefix_length_le)
      with len show False by simp
    qed
    ultimately have "cat R \<noteq> [sep]" "\<not> prefix (cat R @ [sep]) [sep]" by simp_all
    with True False show ?thesis
      unfolding root by (auto simp: abs_path_Nil abs_path_cat startsWith_def)
  next
    case nonempty: False
    have "(cat A = cat R \<or> prefix (cat R @ [sep]) (cat A)) \<longleftrightarrow> prefix (cat R @ [sep]) (cat A @ [sep])"
      by auto
    also have "\<dots> \<longleftrightarrow> prefix R A"
      by (rule prefix_cat [OF Rs As])
    finally show ?thesis
      unfolding root by (simp add: abs_path_cat [OF False] abs_path_cat [OF nonempty] startsWith_def)
  qed
qed

lemma split_abs_path:
  assumes "\<forall>seg \<in> set R. proper seg"
  shows "foldl (norm_step False) [] (split_sep (abs_path R @ sep # x)) =
           foldl (norm_step False) R (split_sep x)"
    and "foldl (norm_step False) [] (split_sep (abs_path R)) = R"
proof -
  have skip: "norm_step False res [] = res" for res by (simp add: norm_step.simps)
  have segs: "foldl (norm_step False) [] (split_sep (join R [sep])) = R"
  proof (cases "R = []")
    case True
    then show ?thesis by (simp add: skip)
  next
    case False
    from assms have "\<forall>seg \<in> set R. sep \<notin> set seg" by (simp add: proper_def)
    from split_sep_join [OF False this] foldl_norm_proper [OF assms, of False "[]"]
    show ?thesis by simp
  qed
  have a: "split_sep (abs_path R) = [] # split_sep (join R [sep])"
    using split_sep_append [of "[]" "join R [sep]"] by (simp add: abs_path_def)
  show "foldl (norm_step False) [] (split_sep (abs_path R)) = R"
    unfolding a by (simp add: skip segs)
  then show "foldl (norm_step False) [] (split_sep (abs_path R @ sep # x)) =
           foldl (norm_step False) R (split_sep x)"
    by (simp add: split_sep_append)
qed

lemma normalize_abs_path:
  assumes "\<forall>seg \<in> set A. proper seg"
  shows "path_normalize (abs_path A) = abs_path A"
proof -
  have ne: "abs_path A \<noteq> []" and hd: "hd (abs_path A) = sep"
    by (simp_all add: abs_path_def)
  have n: "normalizeString (abs_path A) False = join A [sep]"
    by (simp add: normalizeString_def split_abs_path(2) [OF assms])
  show ?thesis
  proof (cases "A = []")
    case True
    with ne hd n show ?thesis
      by (simp add: path_normalize_def abs_path_def)
  next
    case False
    from cat_last_not_sep [OF False assms] have l: "last (abs_path A) \<noteq> sep"
      by (simp add: abs_path_cat [OF False])
    from False have j: "join A [sep] \<noteq> []"
    proof (cases A)
      case Nil
      with False show ?thesis by simp
    next
      case (Cons seg rest)
      with assms have "seg \<noteq> []" by (simp add: proper_def)
      with Cons show ?thesis by (cases rest) simp_all
    qed
    from ne hd n l j show ?thesis
      by (simp add: path_normalize_def Let_def) (simp add: abs_path_def)
  qed
qed

lemma resolve_absolute:
  assumes "isAbsolute p"
  shows "path_resolve cwd [p] = abs_path (foldl (norm_step False) [] (split_sep p))"
proof -
  from assms have loop: "resolve_loop (rev [p] @ [cwd]) [] = (p @ [sep], True)"
    by (simp add: isAbsolute_def)
  have "split_sep (p @ [sep]) = split_sep p @ [[]]"
    using split_sep_append [of p "[]"] by simp
  then have "foldl (norm_step False) [] (split_sep (p @ [sep])) = foldl (norm_step False) [] (split_sep p)"
    by (simp add: norm_step.simps)
  then show ?thesis
    unfolding path_resolve_def loop by (simp add: normalizeString_def abs_path_def)
qed

lemma resolve_relative:
  assumes "\<not> isAbsolute p" and R: "\<forall>seg \<in> set R. proper seg"
  shows "path_resolve cwd [abs_path R, p] = abs_path (foldl (norm_step False) R (split_sep p))"
proof -
  have skip: "norm_step False res [] = res" for res by (simp add: norm_step.simps)
  have root: "abs_path R \<noteq> []" "hd (abs_path R) = sep" by (simp_all add: abs_path_def)
  show ?thesis
  proof (cases "p = []")
    case True
    with root have loop: "resolve_loop (rev [abs_path R, p] @ [cwd]) [] = (abs_path R @ [sep], True)"
      by simp
    have "foldl (norm_step False) [] (split_sep (abs_path R @ [sep])) = foldl (norm_step False) R (split_sep [])"
      using split_abs_path(1) [OF R, of "[]"] by simp
    with True show ?thesis
      unfolding path_resolve_def loop by (simp add: normalizeString_def abs_path_def)
  next
    case False
    with assms(1) have "hd p \<noteq> sep" by (simp add: isAbsolute_def)
    with False root have loop: "resolve_loop (rev [abs_path R, p] @ [cwd]) [] = (abs_path R @ [sep] @ p @ [sep], True)"
      by simp
    have "split_sep (p @ [sep]) = split_sep p @ [[]]"
      using split_sep_append [of p "[]"] by simp
    then have "foldl (norm_step False) [] (split_sep (abs_path R @ [sep] @ p @ [sep])) =
                 foldl (norm_step False) R (split_sep p)"
      using split_abs_path(1) [OF R, of "p @ [sep]"] by (simp add: skip)
    then show ?thesis
      unfolding path_resolve_def loop by (simp add: normalizeString_def abs_path_def)
  qed
qed

lemma norm_proper:
  "\<forall>seg \<in> set res. proper seg \<Longrightarrow> \<forall>seg \<in> set (foldl (norm_step False) res (split_sep p)). proper seg"
  by (rule foldl_norm_keeps_proper) (auto dest: split_sep_no_sep)

lemma canonical_segments_foldl:
  "canonical_segments p = foldl (norm_step False) [] (split_sep p)"
proof -
  have "\<forall>seg \<in> set (split_sep p). sep \<notin> set seg"
    by (auto dest: split_sep_no_sep)
  from foldl_norm_canonical [of "[]", OF _ this] show ?thesis
    by (simp add: canonical_segments_def)
qed

lemma spec_resolution_foldl:
  "spec_resolution r p =
     (if isAbsolute p then foldl (norm_step False) [] (split_sep p)
      else foldl (norm_step False) (foldl (norm_step False) [] (split_sep r)) (split_sep p))"
proof -
  have "split_sep (r @ ''/'' @ p) = split_sep r @ split_sep p"
    using split_sep_append [of r p] by (simp add: sep_def)
  then show ?thesis
    by (simp add: spec_resolution_def canonical_segments_foldl)
qed

lemma validatePath_allowed:
  assumes "isAbsolute r"
  shows "allowed (validatePath accessible cwd p r) \<longleftrightarrow>
           prefix (canonical_segments r) (spec_resolution r p)"
proof -
  let ?R = "foldl (norm_step False) [] (split_sep r)"
  let ?A = "if isAbsolute p then foldl (norm_step False) [] (split_sep p)
            else foldl (norm_step False) ?R (split_sep p)"
  have R: "\<forall>seg \<in> set ?R. proper seg" by (rule norm_proper) simp
  have A: "\<forall>seg \<in> set ?A. proper seg"
  proof (cases "isAbsolute p")
    case True
    have "\<forall>seg \<in> set (foldl (norm_step False) [] (split_sep p)). proper seg"
      by (rule norm_proper) simp
    with True show ?thesis by simp
  next
    case False
    have "\<forall>seg \<in> set (foldl (norm_step False) ?R (split_sep p)). proper seg"
      by (rule norm_proper [OF R])
    with False show ?thesis by simp
  qed
  have root: "path_resolve cwd [r] = abs_path ?R" by (rule resolve_absolute [OF assms])
  have "allowed (validatePath accessible cwd p r) = isWithinProjectRoot (path_normalize (abs_path ?A)) (abs_path ?R)"
  proof (cases "isAbsolute p")
    case True
    with resolve_absolute [OF True, of cwd] show ?thesis
      by (simp add: validatePath_def Let_def root)
  next
    case False
    with resolve_relative [OF False R, of cwd] show ?thesis
      by (simp add: validatePath_def Let_def root)
  qed
  also have "\<dots> \<longleftrightarrow> (abs_path ?A = abs_path ?R \<or>
          startsWith (abs_path ?A)
            (if endsWith (abs_path ?R) [sep] then abs_path ?R else abs_path ?R @ [sep]))"
    unfolding isWithinProjectRoot_def normalize_abs_path [OF A] normalize_abs_path [OF R]
    by (simp add: Let_def)
  also have "\<dots> \<longleftrightarrow> prefix ?R ?A"
    by (rule within_abs_paths [OF R A])
  finally show ?thesis
    by (simp add: canonical_segments_foldl spec_resolution_foldl)
qed

lemma equal_or_descendant_prefix: "equal_or_descendant R A \<longleftrightarrow> prefix R A"
  by (auto simp: equal_or_descendant_def strict_prefix_def)

lemma project_segments:
  "canonical_segments ''/a/project'' = [''a'', ''project'']"
  "spec_resolution ''/a/project'' ''/a/project-evil'' = [''a'', ''project-evil'']"
  "spec_resolution ''/a/project'' ''/a/project/src'' = [''a'', ''project'', ''src'']"
  by (simp_all add: canonical_segments_def spec_resolution_def isAbsolute_def sep_def)

text \<open>
  Claim C1. For an absolute root, \<open>validatePath\<close> allows an input exactly when its
  normalized absolute resolution (against the root when the input is relative) equals
  the root's or is a strict descendant of it. A sibling whose name extends the root's
  name is not allowed (root \<^verbatim>\<open>/a/project\<close>, input \<^verbatim>\<open>/a/project-evil\<close>), a path below the root
  is. The paths are POSIX paths; the process's working directory and the file system do
  not influence the verdict.
\<close>

theorem validatePath_containment:
  assumes "isAbsolute r"
  shows "(allowed (validatePath accessible cwd p r) \<longleftrightarrow>
            equal_or_descendant (canonical_segments r) (spec_resolution r p)) \<and>
         \<not> allowed (validatePath accessible cwd ''/a/project-evil'' ''/a/project'') \<and>
         allowed (validatePath accessible cwd ''/a/project/src'' ''/a/project'')"
proof -
  have root: "isAbsolute ''/a/project''" by (simp add: isAbsolute_def sep_def)
  from validatePath_allowed [OF assms, of accessible cwd p]
  have "allowed (validatePath accessible cwd p r) \<longleftrightarrow>
          equal_or_descendant (canonical_segments r) (spec_resolution r p)"
    by (simp add: equal_or_descendant_prefix)
  moreover from validatePath_allowed [OF root, of accessible cwd "''/a/project-evil''"]
  have "\<not> allowed (validatePath accessible cwd ''/a/project-evil'' ''/a/project'')"
    by (simp add: project_segments)
  moreover from validatePath_allowed [OF root, of accessible cwd "''/a/project/src''"]
  have "allowed (validatePath accessible cwd ''/a/project/src'' ''/a/project'')"
    by (simp add: project_segments)
  ultimately show ?thesis by blast
qed

lemma proj_segments:
  "canonical_segments ''/home/u/proj'' = [''home'', ''u'', ''proj'']"
  "spec_resolution ''/home/u/proj'' ''../../../etc/passwd'' = [''etc'', ''passwd'']"
  "spec_resolution ''/home/u/proj'' ''src/index.ts'' = [''home'', ''u'', ''proj'', ''src'', ''index.ts'']"
  by (simp_all add: canonical_segments_def spec_resolution_def isAbsolute_def sep_def)

lemma traversal_reason:
  "reason (validatePath accessible cwd ''../../../etc/passwd'' r) =
     (if allowed (validatePath accessible cwd ''../../../etc/passwd'' r)
      then (if accessible (resolved (validatePath accessible cwd ''../../../etc/passwd'' r)) then None
            else Some ''Path does not exist'')
      else Some ''Path contains parent directory traversal (..)'')"
  by (simp add: validatePath_def Let_def includes_str_def sublist_code)

theorem validatePath_containment_witness:
  "isAbsolute ''/home/u/proj'' \<and>
   \<not> allowed (validatePath (\<lambda>path. True) ''/srv'' ''../../../etc/passwd'' ''/home/u/proj'') \<and>
   reason (validatePath (\<lambda>path. True) ''/srv'' ''../../../etc/passwd'' ''/home/u/proj'') =
     Some ''Path contains parent directory traversal (..)'' \<and>
   allowed (validatePath (\<lambda>path. True) ''/srv'' ''src/index.ts'' ''/home/u/proj'')"
proof -
  have root: "isAbsolute ''/home/u/proj''" by (simp add: isAbsolute_def sep_def)
  have out: "\<not> equal_or_descendant (canonical_segments ''/home/u/proj'')
                 (spec_resolution ''/home/u/proj'' ''../../../etc/passwd'')"
    and inside: "equal_or_descendant (canonical_segments ''/home/u/proj'')
                 (spec_resolution ''/home/u/proj'' ''src/index.ts'')"
    by (simp_all add: proj_segments equal_or_descendant_prefix)
  from validatePath_containment [OF root, of "\<lambda>path. True" "''/srv''" "''../../../etc/passwd''"] out
  have a: "\<not> allowed (validatePath (\<lambda>path. True) ''/srv'' ''../../../etc/passwd'' ''/home/u/proj'')"
    by blast
  from validatePath_containment [OF root, of "\<lambda>path. True" "''/srv''" "''src/index.ts''"] inside
  have b: "allowed (validatePath (\<lambda>path. True) ''/srv'' ''src/index.ts'' ''/home/u/proj'')"
    by blast
  from a have c: "reason (validatePath (\<lambda>path. True) ''/srv'' ''../../../etc/passwd'' ''/home/u/proj'') =
     Some ''Path contains parent directory traversal (..)''"
    by (simp add: traversal_reason)
  from root a b c show ?thesis by blast
qed

section \<open>Properties of the response cache\<close>

lemma store_ok_empty: "store_ok empty_store"
  by (simp add: store_ok_def empty_store_def)

lemma store_ok_cacheResponse: "store_ok st \<Longrightarrow> store_ok (snd (cacheResponse key now chs ttl st))"
  by (simp add: store_ok_def cacheResponse_def scheduleCleanup_def Let_def distinct_update)

lemma store_ok_getResponse: "store_ok st \<Longrightarrow> store_ok (snd (getResponse now st key))"
  by (simp add: store_ok_def getResponse_def distinct_delete split: option.splits)

lemma map_of_sweep:
  "distinct (map fst al) \<Longrightarrow>
   map_of (filter (\<lambda>(key, entry). \<not> now > expiresAt entry) al) k =
     (case map_of al k of
        None \<Rightarrow> None
      | Some entry \<Rightarrow> if now > expiresAt entry then None else Some entry)"
proof (induction al)
  case Nil
  then show ?case by simp
next
  case (Cons a al)
  obtain k' e' where a: "a = (k', e')" by (cases a)
  from Cons.prems a have notin: "k' \<notin> fst ` set al" and d: "distinct (map fst al)"
    by auto
  from notin have none: "map_of al k' = None"
    by (simp add: map_of_eq_None_iff)
  show ?case
  proof (cases "k = k'")
    case True
    with a none Cons.IH [OF d] show ?thesis by simp
  next
    case False
    with a Cons.IH [OF d] show ?thesis by simp
  qed
qed

lemma cleanup_tick_cache: "cache (cleanup_tick now st) = cache (snd (clearExpired now st))"
  by (simp add: cleanup_tick_def Let_def)

lemma getResponse_lookup:
  "fst (getResponse now st key) =
     (case map_of (cache st) key of
        None \<Rightarrow> None
      | Some entry \<Rightarrow> if now > expiresAt entry then None else Some entry)"
  by (simp add: getResponse_def split: option.splits)

lemma getChunk_lookup:
  "fst (getChunk now st key i) = Some c \<longleftrightarrow>
     (\<exists>entry. fst (getResponse now st key) = Some entry \<and>
        1 \<le> i \<and> i \<le> int (length (chunks entry)) \<and> c = chunks entry ! nat (i - 1))"
  by (cases "getResponse now st key") (auto simp: getChunk_def split: option.splits)

lemma map_of_cacheResponse:
  "map_of (cache (snd (cacheResponse key now chs ttl st))) key =
     Some \<lparr>chunks = chs, createdAt = now,
           expiresAt = now + (case ttl of None \<Rightarrow> CACHE_TTL_MS | Some t \<Rightarrow> t)\<rparr>"
  by (simp add: cacheResponse_def scheduleCleanup_def Let_def update_conv)

text \<open>
  Claim C7. \<open>getChunk key i\<close> returns a chunk exactly when an entry is stored under the
  key, the current time is not past the entry's \<open>expiresAt\<close>, and \<open>i\<close> lies between 1 and
  the number of stored chunks; the chunk returned is the one at position \<open>i\<close> (1-based).
  In every other case the result is absent. An entry stored at time \<open>t0\<close> with a
  time-to-live \<open>ttl\<close> (one hour when omitted) expires at \<open>t0 + ttl\<close>, and the periodic
  sweep (\<open>clearExpired\<close>, run by the timer's \<open>cleanup_tick\<close>) keeps exactly the entries
  that \<open>getResponse\<close> still returns at the same instant.
\<close>

theorem getChunk_present_iff:
  "(fst (getChunk now st key i) = Some c \<longleftrightarrow>
      (\<exists>entry. map_of (cache st) key = Some entry \<and> \<not> now > expiresAt entry \<and>
         1 \<le> i \<and> i \<le> int (length (chunks entry)) \<and> c = chunks entry ! nat (i - 1)))
   \<and> (fst (getChunk now st key i) = None \<longleftrightarrow>
      (\<forall>entry. map_of (cache st) key = Some entry \<longrightarrow>
         now > expiresAt entry \<or> i < 1 \<or> i > int (length (chunks entry))))
   \<and> (fst (getChunk now (snd (cacheResponse key t0 chs ttl st)) key i) = Some c \<longleftrightarrow>
        now \<le> t0 + (case ttl of None \<Rightarrow> 3600000 | Some t \<Rightarrow> t) \<and>
        1 \<le> i \<and> i \<le> int (length chs) \<and> c = chs ! nat (i - 1))
   \<and> (store_ok st \<longrightarrow>
        map_of (cache (snd (clearExpired now st))) key = fst (getResponse now st key) \<and>
        map_of (cache (cleanup_tick now st)) key = fst (getResponse now st key))"
proof (intro conjI)
  show "fst (getChunk now st key i) = Some c \<longleftrightarrow>
      (\<exists>entry. map_of (cache st) key = Some entry \<and> \<not> now > expiresAt entry \<and>
         1 \<le> i \<and> i \<le> int (length (chunks entry)) \<and> c = chunks entry ! nat (i - 1))"
    unfolding getChunk_lookup getResponse_lookup
    by (cases "map_of (cache st) key") auto
  show "fst (getChunk now st key i) = None \<longleftrightarrow>
      (\<forall>entry. map_of (cache st) key = Some entry \<longrightarrow>
         now > expiresAt entry \<or> i < 1 \<or> i > int (length (chunks entry)))"
    by (cases "map_of (cache st) key")
       (auto simp: getChunk_def getResponse_def split: option.splits)
  show "fst (getChunk now (snd (cacheResponse key t0 chs ttl st)) key i) = Some c \<longleftrightarrow>
        now \<le> t0 + (case ttl of None \<Rightarrow> 3600000 | Some t \<Rightarrow> t) \<and>
        1 \<le> i \<and> i \<le> int (length chs) \<and> c = chs ! nat (i - 1)"
    unfolding getChunk_lookup getResponse_lookup map_of_cacheResponse
    by (auto simp: CACHE_TTL_MS_def split: option.splits)
  show "store_ok st \<longrightarrow>
        map_of (cache (snd (clearExpired now st))) key = fst (getResponse now st key) \<and>
        map_of (cache (cleanup_tick now st)) key = fst (getResponse now st key)"
    unfolding getResponse_lookup cleanup_tick_cache
    by (simp add: clearExpired_def store_ok_def map_of_sweep)
qed

theorem getChunk_present_iff_witness:
  "store_ok \<lparr>cache = [(''cache_k'', \<lparr>chunks = [\<lparr>content = ''x'', index = 1, total = 1\<rparr>],
                                      createdAt = 0, expiresAt = 3600000\<rparr>)],
             cleanupScheduled = True\<rparr>
   \<and> fst (getChunk 3600000 \<lparr>cache = [(''cache_k'', \<lparr>chunks = [\<lparr>content = ''x'', index = 1, total = 1\<rparr>],
                                      createdAt = 0, expiresAt = 3600000\<rparr>)],
             cleanupScheduled = True\<rparr> ''cache_k'' 1) = Some \<lparr>content = ''x'', index = 1, total = 1\<rparr>
   \<and> fst (getChunk 3600000 \<lparr>cache = [(''cache_k'', \<lparr>chunks = [\<lparr>content = ''x'', index = 1, total = 1\<rparr>],
                                      createdAt = 0, expiresAt = 3600000\<rparr>)],
             cleanupScheduled = True\<rparr> ''cache_k'' 2) = None
   \<and> map_of (cache (snd (clearExpired 3600000 \<lparr>cache = [(''cache_k'', \<lparr>chunks = [\<lparr>content = ''x'', index = 1, total = 1\<rparr>],
                                      createdAt = 0, expiresAt = 3600000\<rparr>)],
             cleanupScheduled = True\<rparr>))) ''cache_k''
       = Some \<lparr>chunks = [\<lparr>content = ''x'', index = 1, total = 1\<rparr>], createdAt = 0, expiresAt = 3600000\<rparr>"
proof -
  define c where "c = \<lparr>content = ''x'', index = 1, total = 1\<rparr>"
  define e where "e = \<lparr>chunks = [c], createdAt = 0, expiresAt = 3600000\<rparr>"
  define st where "st = \<lparr>cache = [(''cache_k'', e)], cleanupScheduled = True\<rparr>"
  have ok: "store_ok st"
    by (simp add: store_ok_def st_def)
  have look: "map_of (cache st) ''cache_k'' = Some e"
    by (simp add: st_def)
  have hit: "\<exists>entry. map_of (cache st) ''cache_k'' = Some entry \<and> \<not> 3600000 > expiresAt entry \<and>
         (1::int) \<le> 1 \<and> 1 \<le> int (length (chunks entry)) \<and> c = chunks entry ! nat (1 - 1)"
    using look by (simp add: e_def)
  have miss: "\<forall>entry. map_of (cache st) ''cache_k'' = Some entry \<longrightarrow>
         3600000 > expiresAt entry \<or> (2::int) < 1 \<or> 2 > int (length (chunks entry))"
    using look by (simp add: e_def)
  have g1: "fst (getChunk 3600000 st ''cache_k'' 1) = Some c"
    using getChunk_present_iff [of 3600000 st "''cache_k''" 1 c 0 "[]" None] hit by blast
  have g2: "fst (getChunk 3600000 st ''cache_k'' 2) = None"
    using getChunk_present_iff [of 3600000 st "''cache_k''" 2 c 0 "[]" None] miss by blast
  have "map_of (cache (snd (clearExpired 3600000 st))) ''cache_k'' = fst (getResponse 3600000 st ''cache_k'')"
    using getChunk_present_iff [of 3600000 st "''cache_k''" 1 c 0 "[]" None] ok by blast
  then have g3: "map_of (cache (snd (clearExpired 3600000 st))) ''cache_k'' = Some e"
    by (simp add: getResponse_lookup look) (simp add: e_def)
  from ok g1 g2 g3 show ?thesis
    unfolding st_def e_def c_def by simp
qed

end
